theory Spec2Isabelle
  imports Main "HOL-Library.Word"
begin

unbundle bit_operations_syntax

section \<open>Data model of the poll2 core (\<open>Poll/source/poll2_core.cpp\<close>)\<close>

text \<open>
  \<open>word_t\<close> is the 32-bit unsigned word of the PIXIE FIFO. Buffer contents are words;
  counters and cursors (\<open>nWords\<close>, \<open>dataWords\<close>, \<open>parseWords\<close>, ...) are natural numbers,
  and every place where the source stores a sum or difference into a \<open>word_t\<close> has the
  wrap-around modulo \<open>2 ^ 32\<close> written out with \<open>w32\<close> and \<open>wsub32\<close>.
\<close>

type_synonym word_t = "32 word"
type_synonym byte = "8 word"

definition w32 :: "nat \<Rightarrow> nat" where
  "w32 x = x mod 2 ^ 32"

definition wsub32 :: "nat \<Rightarrow> nat \<Rightarrow> nat" where
  "wsub32 a b = (a + 2 ^ 32 - b mod 2 ^ 32) mod 2 ^ 32"

definition POLL_TRIES :: nat where
  "POLL_TRIES = 100"

definition MAX_FILE_SIZE :: nat where
  "MAX_FILE_SIZE = 4294967296"

text \<open>
  The macros \<open>EXTERNAL_FIFO_LENGTH\<close> and \<open>MIN_FIFO_READ\<close> come from the PIXIE headers,
  which are not part of the sources at hand; they are parameters of the model.
\<close>

record pixie_defs =
  EXTERNAL_FIFO_LENGTH :: nat
  MIN_FIFO_READ :: nat

text \<open>
  The answers of the PIXIE interface (\<open>pif\<close>) during one call. \<open>CheckFIFOWords g t m\<close> is
  the depth reported for module \<open>m\<close> in polling round \<open>t\<close>; \<open>ReadFIFOWords g m\<close> is
  \<open>None\<close> when the bulk read of module \<open>m\<close> fails and otherwise the stream of words the
  FIFO delivers (word \<open>i\<close> of the read is \<open>d i\<close>); \<open>CheckRunStatus g k m\<close> is the answer to
  the \<open>k\<close>-th status query for module \<open>m\<close> within one tick.
\<close>

record pif =
  CheckFIFOWords :: "nat \<Rightarrow> nat \<Rightarrow> nat"
  ReadFIFOWords :: "nat \<Rightarrow> (nat \<Rightarrow> word_t) option"
  GetSlotNumber :: "nat \<Rightarrow> nat"
  StartListModeRun :: bool
  CheckRunStatus :: "nat \<Rightarrow> nat \<Rightarrow> nat"

record MCA_args =
  useRoot :: bool
  totalTime :: int
  basename :: string

definition Zero :: MCA_args where
  "Zero = \<lparr>useRoot = False, totalTime = 0, basename = ''MCA''\<rparr>"

text \<open>
  Modelled from the spec: the state of the output sink (class \<open>PollOutputFile\<close>, whose
  source is not at hand). At most one file is open at a time; a file has a run number
  and a suffix. \<open>closed_files\<close> keeps the files closed so far with their run number,
  suffix and words. Whether the file system lets the next open succeed
  (\<open>open_succeeds\<close>) and which run number is free from a given one on (\<open>free_run\<close>)
  belong to the environment.
\<close>

record sink =
  is_open :: bool
  run_number :: nat
  file_suffix :: nat
  filesize :: nat
  contents :: "word_t list"
  closed_files :: "(nat \<times> nat \<times> word_t list) list"
  open_succeeds :: bool
  free_run :: "nat \<Rightarrow> nat"

text \<open>
  Modelled from the spec: the operations of the sink that \<open>Poll\<close> calls. \<open>open\<close> gives a
  fresh run the suffix 0 and a continuation the next suffix, and fails without opening
  anything; \<open>write\<close> appends the words to the open file (with no file open there is
  nothing to append to); \<open>size\<close> reports the bytes of the open file; \<open>close\<close> leaves no
  file open; \<open>next_filename\<close> advances the run number past existing files.
\<close>

definition IsOpen :: "sink \<Rightarrow> bool" where
  "IsOpen f = is_open f"

definition GetFilesize :: "sink \<Rightarrow> nat" where
  "GetFilesize f = filesize f"

definition GetNextFileName :: "sink \<Rightarrow> nat \<Rightarrow> nat" where
  "GetNextFileName f run = free_run f run"

definition CloseFile :: "sink \<Rightarrow> sink" where
  "CloseFile f =
     (if is_open f
      then f\<lparr>is_open := False,
             closed_files := closed_files f @ [(run_number f, file_suffix f, contents f)]\<rparr>
      else f)"

definition OpenNewFile :: "sink \<Rightarrow> nat \<Rightarrow> bool \<Rightarrow> bool \<times> sink" where
  "OpenNewFile f run continueRun =
     (if open_succeeds f
      then (True, f\<lparr>is_open := True, run_number := run,
                    file_suffix := (if continueRun then file_suffix f + 1 else 0),
                    filesize := 0, contents := []\<rparr>)
      else (False, f))"

definition Write :: "sink \<Rightarrow> word_t list \<Rightarrow> sink" where
  "Write f ws =
     (if is_open f
      then f\<lparr>contents := contents f @ ws, filesize := filesize f + 4 * length ws\<rparr>
      else f)"

text \<open>What the program hands to the outside, in order.\<close>

datatype net_msg =
    Ctrl string nat
  | Data "byte list"
  | StatusPacket

datatype console_out =
    HexDump "word_t list"

datatype stats_call =
    AddEvent nat nat nat
  | Clear

datatype pixie_call =
    Boot_BootAll
  | StartListMode
  | EndRun
  | RemovePresetRunLength nat
  | MCA_Run bool int string
  | ParameterCommand string "string list"

text \<open>
  The members of class \<open>Poll\<close> that the modelled functions read or write, the two
  function-static buffers of \<open>ReadFIFO\<close> (\<open>fifoData\<close> and \<open>partialEvent\<close>), and the traces
  of the calls made to the socket client, the terminal, the statistics handler and the
  PIXIE interface. The option flags that are only printed by \<open>status\<close> (\<open>boot_fast\<close>,
  \<open>insert_wall_clock\<close>, ...) are left out. A statistics handler is taken to be installed.

  \<open>fifoData\<close> is an array of \<open>(EXTERNAL_FIFO_LENGTH + 2) * n_cards\<close> words in the source.
  The model keeps the cells as a function of the index and records in \<open>overrun\<close> that
  \<open>ReadFIFO\<close> has touched a cell at or behind the end of the array. From there on the
  source has undefined behaviour; what the model computes for the cells is then what
  the code would do if the memory behind the array were its own.
\<close>

record poll =
  kill_all :: bool
  start_acq :: bool
  stop_acq :: bool
  record_data :: bool
  do_reboot :: bool
  force_spill :: bool
  acq_running :: bool
  run_ctrl_exit :: bool
  had_error :: bool
  file_open :: bool
  do_MCA_run :: bool
  is_quiet :: bool
  debug_mode :: bool
  shm_mode :: bool
  n_cards :: nat
  threshWords :: nat
  output_directory :: string
  output_title :: string
  filename_prefix :: string
  next_run_num :: nat
  output_format :: int
  current_file_num :: nat
  facility :: string
  mca_args :: MCA_args
  output_file :: sink
  fifoData :: "nat \<Rightarrow> word_t"
  partialEvent :: "nat \<Rightarrow> word_t list"
  sent :: "net_msg list"
  console :: "console_out list"
  stats :: "stats_call list"
  pixie :: "pixie_call list"
  overrun :: bool

section \<open>\<open>Poll::broadcast_data\<close>\<close>

text \<open>
  The bytes of a word as \<open>memcpy\<close> lays them out on the little-endian hosts the program
  runs on, and the bytes of \<open>k\<close> consecutive words of a buffer starting at word \<open>off\<close>
  (the byte sequence of a spill is \<open>data_bytes data 0 nWords\<close>).
\<close>

definition word_bytes :: "word_t \<Rightarrow> byte list" where
  "word_bytes w = [ucast w, ucast (drop_bit 8 w), ucast (drop_bit 16 w), ucast (drop_bit 24 w)]"


text \<open>
  \<open>data_l\<close> is the word buffer seen as bytes: \<open>byte_at data j\<close> is \<open>data_l[j]\<close>, and
  \<open>memcpy_data data off len\<close> the \<open>len\<close> bytes that \<open>memcpy\<close> takes from \<open>&data_l[off]\<close>.
\<close>

definition byte_at :: "(nat \<Rightarrow> word_t) \<Rightarrow> nat \<Rightarrow> byte" where
  "byte_at data j = word_bytes (data (j div 4)) ! (j mod 4)"

definition memcpy_data :: "(nat \<Rightarrow> word_t) \<Rightarrow> nat \<Rightarrow> nat \<Rightarrow> byte list" where
  "memcpy_data data off len = map (byte_at data) [off ..< off + len]"

text \<open>
  \<open>SendMessage buf len\<close> transmits the first \<open>len\<close> bytes of the buffer. In \<open>shm_loop\<close> the
  buffer passed is the part of \<open>shm_data\<close> written in this iteration (header, then
  payload); the bytes of \<open>shm_data\<close> behind it are never within \<open>len\<close>.

  \<open>nWords\<close> and the counters of the loop are \<open>unsigned int\<close>. The byte offset
  \<open>words_bcast * 4\<close> is computed in that type and wraps from \<open>2 ^ 30\<close> words on; the
  wrap-around is written out. The other counters cannot wrap for an \<open>nWords\<close> below
  \<open>2 ^ 32\<close>: \<open>words_bcast\<close> is increased by 10000 only while more than 10000 words
  remain, \<open>net_chunk\<close> stays below \<open>nWords div 10000 + 2\<close>, and the length of the last
  datagram is at most 40008.
\<close>

definition SendMessage :: "byte list \<Rightarrow> nat \<Rightarrow> byte list" where
  "SendMessage buf len = take len buf"

function shm_loop :: "(nat \<Rightarrow> word_t) \<Rightarrow> nat \<Rightarrow> nat \<Rightarrow> nat \<Rightarrow> nat \<Rightarrow> byte list list" where
  "shm_loop data nWords num_net_chunks net_chunk words_bcast =
     (if words_bcast < nWords then
        (if nWords - words_bcast > 10000 then
           SendMessage (word_bytes (of_nat net_chunk) @ word_bytes (of_nat num_net_chunks)
                        @ memcpy_data data (w32 (words_bcast * 4)) 40000) 40008
           # shm_loop data nWords num_net_chunks (net_chunk + 1) (words_bcast + 10000)
         else
           SendMessage (word_bytes (of_nat net_chunk) @ word_bytes (of_nat num_net_chunks)
                        @ memcpy_data data (w32 (words_bcast * 4)) ((nWords - words_bcast) * 4))
                       ((nWords - words_bcast + 2) * 4)
           # shm_loop data nWords num_net_chunks (net_chunk + 1)
               (words_bcast + (nWords - words_bcast)))
      else [])"
  by pat_completeness auto
termination
  by (relation "measure (\<lambda>(data, nWords, num_net_chunks, net_chunk, words_bcast).
                   nWords - words_bcast)") auto

declare shm_loop.simps [simp del]

definition num_net_chunks_of :: "nat \<Rightarrow> nat" where
  "num_net_chunks_of nWords =
     (if nWords mod 10000 \<noteq> 0 then nWords div 10000 + 1 else nWords div 10000)"

definition broadcast_data :: "poll \<Rightarrow> (nat \<Rightarrow> word_t) \<Rightarrow> nat \<Rightarrow> poll" where
  "broadcast_data st data nWords =
     (if shm_mode st
      then st\<lparr>sent := sent st @ map Data (shm_loop data nWords (num_net_chunks_of nWords) 1 0)\<rparr>
      else st\<lparr>sent := sent st @ [StatusPacket]\<rparr>)"

section \<open>Construction\<close>

text \<open>
  The state the constructor \<open>Poll::Poll\<close> sets up, for a crate of \<open>cards\<close> modules
  (\<open>n_cards\<close> is assigned in \<open>initialize\<close>) and a threshold set by the caller. The FIFO
  buffer is allocated without being initialised; the model starts it with zeros.
\<close>

definition new_sink :: sink where
  "new_sink = \<lparr>is_open = False, run_number = 0, file_suffix = 0, filesize = 0, contents = [],
               closed_files = [], open_succeeds = True, free_run = (\<lambda>n. n)\<rparr>"

definition Poll :: "nat \<Rightarrow> nat \<Rightarrow> poll" where
  "Poll cards thresh =
     \<lparr>kill_all = False, start_acq = False, stop_acq = False, record_data = False,
      do_reboot = False, force_spill = False, acq_running = False, run_ctrl_exit = False,
      had_error = False, file_open = False, do_MCA_run = False, is_quiet = False,
      debug_mode = False, shm_mode = False, n_cards = cards, threshWords = thresh,
      output_directory = ''./'', output_title = ''PIXIE data file'', filename_prefix = ''run'',
      next_run_num = 1, output_format = 0, current_file_num = 0, facility = [],
      mca_args = Zero, output_file = new_sink, fifoData = (\<lambda>i. 0),
      partialEvent = (\<lambda>m. []), sent = [], console = [], stats = [], pixie = [],
      overrun = False\<rparr>"

section \<open>Output file handling\<close>

text \<open>
  \<open>close_output_file\<close> returns \<open>true\<close> on every path, so the model returns the state only.
  \<open>open_output_file\<close> and \<open>write_data\<close> are called without an argument in places; the
  default of \<open>continueRun\<close> is \<open>false\<close>, as for \<open>close_output_file\<close>.
\<close>

definition close_output_file :: "poll \<Rightarrow> bool \<Rightarrow> poll" where
  "close_output_file st continueRun =
     (let st1 = st\<lparr>file_open := False\<rparr> in
      if IsOpen (output_file st1) then
        (let st2 = st1\<lparr>sent := sent st1 @ [Ctrl ''$CLOSE_FILE'' 12],
                       output_file := CloseFile (output_file st1)\<rparr> in
         if \<not> continueRun
         then st2\<lparr>stats := stats st2 @ [Clear],
                  next_run_num := GetNextFileName (output_file st2) (next_run_num st2)\<rparr>
         else st2)
      else st1)"

definition open_output_file :: "poll \<Rightarrow> bool \<Rightarrow> bool \<times> poll" where
  "open_output_file st continueRun =
     (if \<not> IsOpen (output_file st) then
        (case OpenNewFile (output_file st) (next_run_num st) continueRun of
           (False, f) \<Rightarrow> (False, st\<lparr>output_file := f, record_data := False\<rparr>)
         | (True, f) \<Rightarrow>
             (True, st\<lparr>output_file := f, stats := stats st @ [Clear],
                       sent := sent st @ [Ctrl ''$OPEN_FILE'' 12], file_open := True\<rparr>))
      else (False, st))"

definition write_data :: "poll \<Rightarrow> (nat \<Rightarrow> word_t) \<Rightarrow> nat \<Rightarrow> poll" where
  "write_data st data nWords =
     (let st1 = (if \<not> IsOpen (output_file st) then snd (open_output_file st False) else st);
          current_filesize = GetFilesize (output_file st1);
          st2 = (if current_filesize + w32 (4 * nWords + 65552) > MAX_FILE_SIZE
                 then snd (open_output_file (close_output_file st1 True) True)
                 else st1)
      in st2\<lparr>output_file := Write (output_file st2) (map data [0 ..< nWords])\<rparr>)"

section \<open>Run requests\<close>

definition StartAcq :: "poll \<Rightarrow> bool \<times> poll" where
  "StartAcq st =
     (if do_MCA_run st then (False, st)
      else if acq_running st then (False, st)
      else (True, st\<lparr>start_acq := True\<rparr>))"

definition StopAcq :: "poll \<Rightarrow> bool \<times> poll" where
  "StopAcq st =
     (if \<not> acq_running st then (False, st)
      else (True, st\<lparr>stop_acq := True\<rparr>))"

definition StartRun :: "poll \<Rightarrow> bool \<times> poll" where
  "StartRun st =
     (if do_MCA_run st then (False, st)
      else if acq_running st then (False, st)
      else
        (let st1 = (if IsOpen (output_file st) then close_output_file st False else st) in
         case open_output_file st1 False of
           (False, st2) \<Rightarrow> (False, st2)
         | (True, st2) \<Rightarrow> (True, snd (StartAcq (st2\<lparr>record_data := True\<rparr>)))))"

definition StopRun :: "poll \<Rightarrow> bool \<times> poll" where
  "StopRun st =
     (if \<not> acq_running st then (False, st)
      else (True, (snd (StopAcq st))\<lparr>record_data := False\<rparr>))"

section \<open>\<open>Poll::command_control\<close>\<close>

text \<open>
  \<open>split_str\<close> cuts the argument string at the delimiter (a blank); the last character
  always ends a field and is kept in it. \<open>atoi\<close> reads an optional sign and leading
  decimal digits after white space and yields a C \<open>int\<close>: as in the C library the
  program is built with, it is \<open>strtol\<close>, which stops at the ends of the range of
  \<open>long\<close> (64 bits), followed by the conversion to \<open>int\<close>, which keeps the low 32 bits.
  \<open>to_uint\<close> is the conversion of an \<open>int\<close> to the unsigned run number.
\<close>

fun split_str_loop :: "char \<Rightarrow> string \<Rightarrow> string \<Rightarrow> string list" where
  "split_str_loop d temp [] = []"
| "split_str_loop d temp [c] = [temp @ [c]]"
| "split_str_loop d temp (c # cs) =
     (if c = d then temp # split_str_loop d [] cs else split_str_loop d (temp @ [c]) cs)"

definition split_str :: "string \<Rightarrow> string list" where
  "split_str str = split_str_loop (CHR '' '') [] str"

definition digit_val :: "char \<Rightarrow> int" where
  "digit_val c = int (of_char c) - 48"

definition is_digit :: "char \<Rightarrow> bool" where
  "is_digit c = (48 \<le> (of_char c :: nat) \<and> (of_char c :: nat) \<le> 57)"

definition is_space :: "char \<Rightarrow> bool" where
  "is_space c = ((of_char c :: nat) = 32 \<or> (9 \<le> (of_char c :: nat) \<and> (of_char c :: nat) \<le> 13))"

fun digits_val :: "int \<Rightarrow> string \<Rightarrow> int" where
  "digits_val acc [] = acc"
| "digits_val acc (c # cs) = (if is_digit c then digits_val (10 * acc + digit_val c) cs else acc)"

definition strtol :: "string \<Rightarrow> int" where
  "strtol s =
     (let v = (case dropWhile is_space s of
                 [] \<Rightarrow> 0
               | c # cs \<Rightarrow>
                   if c = CHR ''-'' then - digits_val 0 cs
                   else if c = CHR ''+'' then digits_val 0 cs
                   else digits_val 0 (c # cs))
      in max (- (2 ^ 63)) (min (2 ^ 63 - 1) v))"

definition to_int :: "int \<Rightarrow> int" where
  "to_int x = (x + 2 ^ 31) mod 2 ^ 32 - 2 ^ 31"

definition atoi :: "string \<Rightarrow> int" where
  "atoi s = to_int (strtol s)"

definition to_uint :: "int \<Rightarrow> nat" where
  "to_uint x = nat (x mod 2 ^ 32)"

text \<open>
  One pass of the loop of \<open>command_control\<close> on the line \<open>cmd\<close> that the terminal returned.
  \<open>Continue\<close> goes back to reading the next line. \<open>WaitExit\<close> is the path of \<open>quit\<close> and
  \<open>kill\<close>: the thread sleeps until the run control has set \<open>run_ctrl_exit\<close> and then leaves
  the loop. Printing is left out. The commands that only talk to the PIXIE interface or
  write a parameter file are recorded as one \<open>ParameterCommand\<close> each when they pass
  their guard; none of them assigns a member of \<open>Poll\<close>.
\<close>

datatype loop_ctl = Continue | WaitExit

definition mca_command :: "poll \<Rightarrow> string list \<Rightarrow> poll" where
  "mca_command st arguments =
     (let p_args = length arguments;
          a0 = mca_args st;
          a1 = (if p_args \<ge> 1 then
                  (let type = arguments ! 0;
                       b1 = (if type = ''root'' then a0\<lparr>useRoot := True\<rparr>
                             else if type \<noteq> ''damm'' then a0\<lparr>totalTime := atoi type\<rparr>
                             else a0)
                   in if p_args \<ge> 2 then
                        (let b2 = (if totalTime b1 = 0 then b1\<lparr>totalTime := atoi (arguments ! 1)\<rparr>
                                   else b1\<lparr>basename := arguments ! 1\<rparr>)
                         in if p_args \<ge> 3 then b2\<lparr>basename := arguments ! 2\<rparr> else b2)
                      else b1)
                else a0);
          a2 = (if totalTime a1 = 0 then a1\<lparr>totalTime := 10\<rparr> else a1)
      in st\<lparr>mca_args := a2, do_MCA_run := True\<rparr>)"

definition dispatch :: "poll \<Rightarrow> string \<Rightarrow> string \<Rightarrow> string list \<Rightarrow> loop_ctl \<times> poll" where
  "dispatch st cmd arg arguments =
     (let p_args = length arguments in
      if cmd = ''quit'' \<or> cmd = ''exit'' then
        (if do_MCA_run st then (Continue, st)
         else if acq_running st then (Continue, st)
         else (WaitExit, st\<lparr>kill_all := True\<rparr>))
      else if cmd = ''kill'' then
        (WaitExit, (if acq_running st \<or> do_MCA_run st then st\<lparr>stop_acq := True\<rparr> else st)
                     \<lparr>kill_all := True\<rparr>)
      else if cmd = ''help'' \<or> cmd = ''h'' then (Continue, st)
      else if cmd = ''version'' \<or> cmd = ''v'' then (Continue, st)
      else if cmd = ''status'' then (Continue, st)
      else if cmd = ''run'' then (Continue, snd (StartRun st))
      else if cmd = ''startacq'' \<or> cmd = ''startvme'' then (Continue, snd (StartAcq st))
      else if cmd = ''stop'' then (Continue, snd (StopRun st))
      else if cmd = ''stopacq'' \<or> cmd = ''stopvme'' then (Continue, snd (StopAcq st))
      else if cmd = ''acq'' \<or> cmd = ''shm'' then
        (Continue, if shm_mode st then st\<lparr>shm_mode := False\<rparr> else st\<lparr>shm_mode := True\<rparr>)
      else if cmd = ''reboot'' then
        (if do_MCA_run st then (Continue, st)
         else if acq_running st \<or> do_MCA_run st then (Continue, st)
         else (Continue, st\<lparr>do_reboot := True\<rparr>))
      else if cmd = ''clo'' \<or> cmd = ''close'' then
        (if do_MCA_run st then (Continue, st)
         else if acq_running st \<and> record_data st then (Continue, st)
         else (Continue, close_output_file st False))
      else if cmd = ''hup'' \<or> cmd = ''spill'' then
        (if do_MCA_run st then (Continue, st)
         else if \<not> acq_running st then (Continue, st)
         else (Continue, st\<lparr>force_spill := True\<rparr>))
      else if cmd = ''debug'' then
        (Continue, if debug_mode st then st\<lparr>debug_mode := False\<rparr> else st\<lparr>debug_mode := True\<rparr>)
      else if cmd = ''quiet'' then
        (Continue, if is_quiet st then st\<lparr>is_quiet := False\<rparr> else st\<lparr>is_quiet := True\<rparr>)
      else if cmd = ''fdir'' then
        (if arg = [] then (Continue, st)
         else if file_open st then (Continue, st)
         else
           (let dir = (if last arg \<noteq> CHR ''/'' then arg @ ''/'' else arg) in
            (Continue, st\<lparr>output_directory := dir, current_file_num := 0,
                          next_run_num := GetNextFileName (output_file st) (next_run_num st)\<rparr>)))
      else if cmd = ''prefix'' then
        (if arg = [] then (Continue, st)
         else if file_open st then (Continue, st)
         else
           (Continue, st\<lparr>filename_prefix := arg,
                         next_run_num := GetNextFileName (output_file st)
                                           (GetNextFileName (output_file st) 1)\<rparr>))
      else if cmd = ''title'' then
        (if arg = [] then (Continue, st)
         else if file_open st then (Continue, st)
         else (Continue, st\<lparr>output_title := arg\<rparr>))
      else if cmd = ''facility'' then
        (if arg = [] then (Continue, st)
         else if output_format st \<noteq> 1 then (Continue, st)
         else if file_open st then (Continue, st)
         else (Continue, st\<lparr>facility := arg\<rparr>))
      else if cmd = ''runnum'' then
        (if arg = [] then (Continue, st)
         else if file_open st then (Continue, st)
         else (Continue, st\<lparr>next_run_num :=
                               GetNextFileName (output_file st) (to_uint (atoi arg))\<rparr>))
      else if cmd = ''oform'' then
        (if arg \<noteq> [] then
           (let format = atoi arg in
            if format = 0 \<or> format = 1 \<or> format = 2
            then (Continue, st\<lparr>output_format := atoi arg\<rparr>)
            else (Continue, st))
         else (Continue, st))
      else if cmd = ''mca'' \<or> cmd = ''MCA'' then
        (if do_MCA_run st then (Continue, st)
         else if acq_running st then (Continue, st)
         else (Continue, mca_command st arguments))
      else if cmd = ''dump'' then
        (Continue, st\<lparr>pixie := pixie st @ [ParameterCommand cmd arguments]\<rparr>)
      else if cmd = ''pwrite'' \<or> cmd = ''pmwrite'' \<or> cmd = ''adjust_offsets''
              \<or> cmd = ''find_tau'' \<or> cmd = ''toggle'' \<or> cmd = ''toggle_bit'' then
        (if acq_running st \<or> do_MCA_run st then (Continue, st)
         else (Continue, st\<lparr>pixie := pixie st @ [ParameterCommand cmd arguments]\<rparr>))
      else if cmd = ''pread'' \<or> cmd = ''pmread'' then
        (Continue, st\<lparr>pixie := pixie st @ [ParameterCommand cmd arguments]\<rparr>)
      else if cmd = ''csr_test'' \<or> cmd = ''bit_test'' then (Continue, st)
      else (Continue, st))"

definition command_step :: "poll \<Rightarrow> string \<Rightarrow> loop_ctl \<times> poll" where
  "command_step st line =
     (if line = ''CTRL_C'' then (Continue, st)
      else
        (let cmd = (if line = ''CTRL_D'' then ''quit'' else line) in
         if CHR 0x09 \<in> set cmd then (Continue, st)
         else if cmd = [] then (Continue, st)
         else
           (let has_blank = (CHR '' '' \<in> set cmd);
                arg = (if has_blank then tl (dropWhile (\<lambda>c. c \<noteq> CHR '' '') cmd) else []);
                verb = (if has_blank then takeWhile (\<lambda>c. c \<noteq> CHR '' '') cmd else cmd);
                arguments = split_str arg
            in dispatch (st\<lparr>had_error := False\<rparr>) verb arg arguments)))"

section \<open>\<open>Poll::ReadFIFO\<close>\<close>

subsection \<open>The threshold wait\<close>

text \<open>
  \<open>max_element\<close> is the value \<open>*std::max_element\<close> yields on a non-empty vector (with no
  card the source dereferences the end iterator; the model then yields 0).
  \<open>wait_loop\<close> is the \<open>for\<close> loop over \<open>timeout\<close>: it returns the depths of the last
  polling round and the number of rounds made.
\<close>

definition max_element :: "nat list \<Rightarrow> nat" where
  "max_element xs = fold max xs 0"

definition poll_round :: "pif \<Rightarrow> nat \<Rightarrow> nat \<Rightarrow> nat list" where
  "poll_round g cards timeout = map (\<lambda>m. w32 (CheckFIFOWords g timeout m)) [0 ..< cards]"

function wait_loop :: "pif \<Rightarrow> nat \<Rightarrow> nat \<Rightarrow> nat \<Rightarrow> nat list \<Rightarrow> nat list \<times> nat" where
  "wait_loop g cards thresh timeout nWords =
     (if timeout < POLL_TRIES then
        (let nWords' = poll_round g cards timeout in
         if max_element nWords' > thresh then (nWords', timeout + 1)
         else wait_loop g cards thresh (timeout + 1) nWords')
      else (nWords, timeout))"
  by pat_completeness auto
termination
  by (relation "measure (\<lambda>(g, cards, thresh, timeout, nWords). POLL_TRIES - timeout)") auto

declare wait_loop.simps [simp del]

subsection \<open>The event header\<close>

definition slotRead :: "word_t \<Rightarrow> nat" where
  "slotRead w = unat (drop_bit 4 (w AND 0xF0))"

definition chanRead :: "word_t \<Rightarrow> nat" where
  "chanRead w = unat (w AND 0xF)"

definition eventSize_of :: "word_t \<Rightarrow> nat" where
  "eventSize_of w = unat (drop_bit 17 (w AND 0x7FFE2000))"

definition virtualChannel :: "word_t \<Rightarrow> bool" where
  "virtualChannel w = (w AND 0x20000000 \<noteq> 0)"

text \<open>
  The parsing loop over the events of one module. \<open>lim\<close> is \<open>dataWords + nWords[mod]\<close>.
  The result is the final \<open>parseWords\<close>, the last \<open>eventSize\<close> read (it is assigned before
  the checks, so a \<open>break\<close> leaves the size of the offending header in it) and the calls
  made to the statistics handler.
\<close>

function parse_events ::
  "(nat \<Rightarrow> word_t) \<Rightarrow> nat \<Rightarrow> nat \<Rightarrow> nat \<Rightarrow> nat \<Rightarrow> nat \<Rightarrow> stats_call list
     \<Rightarrow> nat \<times> nat \<times> stats_call list" where
  "parse_events buf m slotExpected lim parseWords eventSize calls =
     (if parseWords < lim then
        (let w = buf parseWords;
             eventSize' = eventSize_of w in
         if slotRead w \<noteq> slotExpected then (parseWords, eventSize', calls)
         else if chanRead w > 15 then (parseWords, eventSize', calls)
         else if eventSize' = 0 then (parseWords, eventSize', calls)
         else parse_events buf m slotExpected lim (parseWords + eventSize') eventSize'
                (if \<not> virtualChannel w
                 then calls @ [AddEvent m (chanRead w) (4 * eventSize')] else calls))
      else (parseWords, eventSize, calls))"
  by pat_completeness auto
termination
  by (relation "measure (\<lambda>(buf, m, slotExpected, lim, parseWords, eventSize, calls).
                   lim - parseWords)") auto

declare parse_events.simps [simp del]

subsection \<open>One module\<close>

text \<open>
  \<open>store_words buf pos f n\<close> is the loop that assigns \<open>buf[pos + i] = f i\<close> for
  \<open>i = 0, ..., n - 1\<close>; it is the copy of the saved partial event into \<open>fifoData\<close> and
  also what a successful \<open>ReadFIFOWords\<close> does with the \<open>n\<close> words it delivers.
\<close>

definition store_words :: "(nat \<Rightarrow> word_t) \<Rightarrow> nat \<Rightarrow> (nat \<Rightarrow> word_t) \<Rightarrow> nat \<Rightarrow> (nat \<Rightarrow> word_t)" where
  "store_words buf pos f n = fold (\<lambda>i b. b(pos + i := f i)) [0 ..< n] buf"

text \<open>
  \<open>load_module\<close> is the buffer after the module number, the saved partial event and the
  words read from the FIFO have been placed; \<open>dataWords\<close> is the cursor on entry to the
  loop body, so the length word of the segment is at \<open>dataWords\<close>, the module number at
  \<open>dataWords + 1\<close> and the data from \<open>dataWords + 2\<close> on.
\<close>

definition load_module ::
  "(nat \<Rightarrow> word_t) \<Rightarrow> nat \<Rightarrow> nat \<Rightarrow> word_t list \<Rightarrow> (nat \<Rightarrow> word_t) \<Rightarrow> nat \<Rightarrow> (nat \<Rightarrow> word_t)" where
  "load_module buf dataWords m partial d nW =
     store_words
       (store_words (buf(dataWords + 1 := of_nat m)) (dataWords + 2) (\<lambda>i. partial ! i)
          (length partial))
       (dataWords + 2 + length partial) d nW"

text \<open>
  The body of the loop over the modules. \<open>Inl st'\<close> is the \<open>return false\<close> of \<open>ReadFIFO\<close>
  with the state at that point; \<open>Inr (st', dataWords')\<close> goes on to the next module.
  \<open>finish_module\<close> is the part of the body behind the parsing loop (the check of its
  outcome and the closing of the segment), with \<open>dw\<close> the cursor behind the two injected
  words and \<open>n1\<close> the value of \<open>nWords[mod]\<close> after the partial event has been added.

  \<open>past_end P st hi\<close> says that the cells below index \<open>hi\<close> do not all lie in the array
  of \<open>(EXTERNAL_FIFO_LENGTH + 2) * n_cards\<close> words. The body sets \<open>overrun\<close> where it
  touches such cells: the two words of an empty segment, the saved partial event and
  the destination of the FIFO read, and the 100 words of the dump.
  The branch \<open>nWords[mod] < 0\<close> of the source can never be taken (the vector is unsigned)
  and is left out. The counter of the loop that saves the partial event is an
  \<open>unsigned short\<close>; \<open>partialSize\<close> is below the 14-bit \<open>eventSize\<close>, so it does not wrap.
\<close>

definition past_end :: "pixie_defs \<Rightarrow> poll \<Rightarrow> nat \<Rightarrow> bool" where
  "past_end P st hi \<longleftrightarrow> hi > (EXTERNAL_FIFO_LENGTH P + 2) * n_cards st"

definition finish_module ::
  "pixie_defs \<Rightarrow> poll \<Rightarrow> (nat \<Rightarrow> word_t) \<Rightarrow> nat \<Rightarrow> nat \<Rightarrow> nat \<Rightarrow> nat \<Rightarrow> nat \<Rightarrow> stats_call list
     \<Rightarrow> poll + poll \<times> nat" where
  "finish_module P st1 buf m dw n1 parseWords eventSize calls =
     (let st2 = st1\<lparr>stats := stats st1 @ calls\<rparr>
      in if parseWords > dw + n1 then
           (let missingWords = w32 (parseWords - dw - n1);
                partialSize = wsub32 eventSize missingWords;
                saved = partialEvent st2 m
                        @ map (\<lambda>i. buf (parseWords - eventSize + i)) [0 ..< partialSize];
                n2 = wsub32 n1 partialSize
            in Inr (st2\<lparr>partialEvent := (partialEvent st2)(m := saved),
                        fifoData := buf(dw - 2 := of_nat (w32 (n2 + 2)))\<rparr>,
                    dw + n2))
         else if parseWords < dw + n1 then
           Inl (st2\<lparr>console := (if \<not> is_quiet st2
                                  then console st2 @ [HexDump (map (\<lambda>i. buf (dw + i)) [0 ..< 100])]
                                  else console st2),
                    overrun := (overrun st2 \<or> (\<not> is_quiet st2 \<and> past_end P st2 (dw + 100))),
                    stop_acq := True, had_error := True\<rparr>)
         else
           Inr (st2\<lparr>fifoData := buf(dw - 2 := of_nat (w32 (n1 + 2)))\<rparr>, dw + n1))"

definition read_module ::
  "pif \<Rightarrow> pixie_defs \<Rightarrow> poll \<Rightarrow> nat \<Rightarrow> nat \<Rightarrow> nat \<Rightarrow> poll + poll \<times> nat" where
  "read_module g P st nW m dataWords =
     (if nW < MIN_FIFO_READ P then
        Inr (st\<lparr>fifoData := (fifoData st)(dataWords := 2, dataWords + 1 := of_nat m),
                overrun := (overrun st \<or> past_end P st (dataWords + 2))\<rparr>,
             dataWords + 2)
      else if nW \<ge> EXTERNAL_FIFO_LENGTH P then
        Inl (st\<lparr>had_error := True, stop_acq := True\<rparr>)
      else
        (let dw = dataWords + 2;
             partial = partialEvent st m in
         case ReadFIFOWords g m of
           None \<Rightarrow>
             Inl (st\<lparr>fifoData := store_words ((fifoData st)(dataWords + 1 := of_nat m)) dw
                                    (\<lambda>i. partial ! i) (length partial),
                     overrun := (overrun st \<or> past_end P st (dw + length partial + nW)),
                     had_error := True, stop_acq := True\<rparr>)
         | Some d \<Rightarrow>
             (let buf = load_module (fifoData st) dataWords m partial d nW;
                  n1 = w32 (nW + length partial);
                  st1 = st\<lparr>fifoData := buf, partialEvent := (partialEvent st)(m := []),
                           overrun := (overrun st \<or> past_end P st (dw + length partial + nW))\<rparr>
              in case parse_events buf m (GetSlotNumber g m) (dw + n1) dw 0 [] of
                   (parseWords, eventSize, calls) \<Rightarrow>
                     finish_module P st1 buf m dw n1 parseWords eventSize calls)))"

fun module_loop ::
  "pif \<Rightarrow> pixie_defs \<Rightarrow> nat list \<Rightarrow> poll \<Rightarrow> nat \<Rightarrow> nat list \<Rightarrow> poll + poll \<times> nat" where
  "module_loop g P nWords st dataWords [] = Inr (st, dataWords)"
| "module_loop g P nWords st dataWords (m # mods) =
     (case read_module g P st (nWords ! m) m dataWords of
        Inl st' \<Rightarrow> Inl st'
      | Inr (st', dataWords') \<Rightarrow> module_loop g P nWords st' dataWords' mods)"

subsection \<open>The drain\<close>

text \<open>
  \<open>drain_wait\<close> is the threshold wait as \<open>ReadFIFO\<close> starts it: \<open>nWords\<close> is a fresh vector
  of \<open>n_cards\<close> zeros and \<open>timeout\<close> starts at 0. \<open>drain_modules\<close> is the block that is
  entered when the pass reads data: the loop over the modules, then writing and
  broadcasting the spill; \<open>write_data\<close> and \<open>broadcast_data\<close> take the word count as an
  \<open>unsigned int\<close>. The time bookkeeping at the end of a spill (\<open>usGetTime\<close>, \<open>AddTime\<close>)
  is left out.
\<close>

definition drain_wait :: "pif \<Rightarrow> poll \<Rightarrow> nat list \<times> nat" where
  "drain_wait g st = wait_loop g (n_cards st) (threshWords st) 0 (replicate (n_cards st) 0)"

definition drain_modules :: "pif \<Rightarrow> pixie_defs \<Rightarrow> nat list \<Rightarrow> poll \<Rightarrow> bool \<times> poll" where
  "drain_modules g P nWords st =
     (case module_loop g P nWords st 0 [0 ..< n_cards st] of
        Inl st' \<Rightarrow> (False, st')
      | Inr (st', dataWords) \<Rightarrow>
          (let st1 = (if record_data st' then write_data st' (fifoData st') (w32 dataWords)
                      else st')
           in (True, broadcast_data st1 (fifoData st1) (w32 dataWords))))"

definition ReadFIFO :: "pif \<Rightarrow> pixie_defs \<Rightarrow> poll \<Rightarrow> bool \<times> poll" where
  "ReadFIFO g P st =
     (if \<not> acq_running st then (False, st)
      else
        (let (nWords, polls) = drain_wait g st;
             readData = (max_element nWords > threshWords st \<or> stop_acq st)
         in if readData \<or> force_spill st
            then drain_modules g P nWords (st\<lparr>force_spill := False\<rparr>)
            else (True, st)))"

section \<open>\<open>Poll::run_control\<close>\<close>

text \<open>
  One iteration of the loop of \<open>run_control\<close>, with the flags as they are when the
  iteration reads them. \<open>Exited\<close> is the \<open>break\<close> followed by \<open>run_ctrl_exit = true\<close>;
  \<open>Running\<close> is the end of an iteration that goes round again. The status line and the
  sleeps are left out.
\<close>

datatype tick_result = Exited poll | Running poll

definition tick_reboot :: "poll \<Rightarrow> poll" where
  "tick_reboot st =
     (if do_reboot st then
        (if acq_running st then st\<lparr>stop_acq := True\<rparr>
         else st\<lparr>pixie := pixie st @ [Boot_BootAll], do_reboot := False\<rparr>)
      else st)"

definition tick_mca :: "poll \<Rightarrow> poll" where
  "tick_mca st =
     (if do_MCA_run st then
        (if acq_running st then st\<lparr>stop_acq := True\<rparr>
         else st\<lparr>pixie := pixie st @ [RemovePresetRunLength 0,
                                       MCA_Run (useRoot (mca_args st)) (totalTime (mca_args st))
                                               (basename (mca_args st))],
                 mca_args := Zero, stop_acq := False, do_MCA_run := False\<rparr>)
      else st)"

definition tick_start :: "pif \<Rightarrow> poll \<Rightarrow> poll" where
  "tick_start g st =
     (if start_acq st \<and> \<not> acq_running st then
        (if StartListModeRun g
         then st\<lparr>pixie := pixie st @ [StartListMode], acq_running := True, start_acq := False\<rparr>
         else st\<lparr>pixie := pixie st @ [StartListMode], acq_running := False, had_error := True,
                 start_acq := False\<rparr>)
      else if start_acq st \<and> acq_running st then st\<lparr>start_acq := False\<rparr>
      else st)"

fun end_of_run :: "pif \<Rightarrow> pixie_defs \<Rightarrow> poll \<Rightarrow> nat list \<Rightarrow> poll" where
  "end_of_run g P st [] = st"
| "end_of_run g P st (m # mods) =
     (let st1 = (if CheckRunStatus g 0 m = 1
                 then snd (ReadFIFO g P (st\<lparr>force_spill := True\<rparr>)) else st);
          st2 = (if CheckRunStatus g 1 m = 0 then st1 else st1\<lparr>had_error := True\<rparr>)
      in end_of_run g P st2 mods)"

definition tick_acq :: "pif \<Rightarrow> pixie_defs \<Rightarrow> poll \<Rightarrow> poll" where
  "tick_acq g P st =
     (if acq_running st then
        (let st1 = snd (ReadFIFO g P st) in
         if stop_acq st1 then
           end_of_run g P (st1\<lparr>pixie := pixie st1 @ [EndRun], stop_acq := False,
                               acq_running := False\<rparr>) [0 ..< n_cards st1]
         else st1)
      else st)"

definition tick_rest :: "pif \<Rightarrow> pixie_defs \<Rightarrow> poll \<Rightarrow> poll" where
  "tick_rest g P st = tick_acq g P (tick_start g (tick_mca (tick_reboot st)))"

definition run_control_tick :: "pif \<Rightarrow> pixie_defs \<Rightarrow> poll \<Rightarrow> tick_result" where
  "run_control_tick g P st =
     (if kill_all st then
        (if acq_running st then Running (tick_rest g P (st\<lparr>stop_acq := True\<rparr>))
         else Exited (st\<lparr>run_ctrl_exit := True\<rparr>))
      else Running (tick_rest g P st))"

section \<open>Auxiliary notions for the verification\<close>

text \<open>
  \<open>drain_frame st s\<close>: between \<open>st\<close> and \<open>s\<close> none of the members that the module loop
  of \<open>ReadFIFO\<close> never assigns has changed, and \<open>stop_acq\<close> and \<open>had_error\<close> have not been
  cleared.
\<close>

definition drain_frame :: "poll \<Rightarrow> poll \<Rightarrow> bool" where
  "drain_frame st s \<longleftrightarrow>
     kill_all s = kill_all st \<and> start_acq s = start_acq st \<and> acq_running s = acq_running st
     \<and> record_data s = record_data st \<and> do_reboot s = do_reboot st
     \<and> do_MCA_run s = do_MCA_run st \<and> run_ctrl_exit s = run_ctrl_exit st
     \<and> is_quiet s = is_quiet st \<and> debug_mode s = debug_mode st \<and> shm_mode s = shm_mode st
     \<and> n_cards s = n_cards st \<and> threshWords s = threshWords st
     \<and> next_run_num s = next_run_num st \<and> file_open s = file_open st
     \<and> output_file s = output_file st \<and> sent s = sent st \<and> pixie s = pixie st
     \<and> (stop_acq st \<longrightarrow> stop_acq s) \<and> (had_error st \<longrightarrow> had_error s)"

text \<open>
  \<open>run_linked st\<close>: the member \<open>file_open\<close> says whether the sink has a file open, and the
  run number of an open file is \<open>next_run_num\<close>.
\<close>

definition run_linked :: "poll \<Rightarrow> bool" where
  "run_linked st \<longleftrightarrow>
     (file_open st \<longleftrightarrow> IsOpen (output_file st))
     \<and> (IsOpen (output_file st) \<longrightarrow> run_number (output_file st) = next_run_num st)"



text \<open>Concrete inputs used to exercise the theorems.\<close>

definition crate_defs :: pixie_defs where
  "crate_defs = \<lparr>EXTERNAL_FIFO_LENGTH = 131072, MIN_FIFO_READ = 9\<rparr>"

definition quiet_crate :: pif where
  "quiet_crate = \<lparr>CheckFIFOWords = (\<lambda>t m. 0), ReadFIFOWords = (\<lambda>m. None),
                  GetSlotNumber = (\<lambda>m. 2), StartListModeRun = True,
                  CheckRunStatus = (\<lambda>k m. 0)\<rparr>"

definition error_shown :: poll where
  "error_shown = (Poll 1 0)\<lparr>had_error := True\<rparr>"

definition unwritable :: poll where
  "unwritable = (Poll 1 0)\<lparr>output_file := new_sink\<lparr>open_succeeds := False\<rparr>\<rparr>"

definition near_ceiling :: sink where
  "near_ceiling = new_sink\<lparr>is_open := True, run_number := 7, filesize := 4294963200\<rparr>"

definition recording :: poll where
  "recording = (Poll 1 0)\<lparr>acq_running := True, record_data := True, file_open := True,
                           next_run_num := 7, output_file := near_ceiling\<rparr>"

definition recording_stuck :: poll where
  "recording_stuck = recording\<lparr>output_file := near_ceiling\<lparr>open_succeeds := False\<rparr>\<rparr>"

definition stopping :: poll where
  "stopping = (Poll 1 0)\<lparr>acq_running := True, stop_acq := True\<rparr>"

definition busy_crate :: pif where
  "busy_crate = quiet_crate\<lparr>CheckFIFOWords := (\<lambda>t m. 5)\<rparr>"


definition running :: poll where
  "running = (Poll 1 0)\<lparr>acq_running := True\<rparr>"


definition killed_running :: poll where
  "killed_running = (Poll 1 0)\<lparr>acq_running := True, kill_all := True\<rparr>"

text \<open>
  A header for slot 2, channel 1 and an event of 4 words; a FIFO that delivers two whole
  events and the first two words of a third; a FIFO that delivers zeros.
\<close>

definition straddle_words :: "word_t list" where
  "straddle_words = [0x80021, 1, 2, 3, 0x80021, 1, 2, 3, 0x80021, 1]"

definition straddle_crate :: pif where
  "straddle_crate = quiet_crate\<lparr>CheckFIFOWords := (\<lambda>t m. 10),
                                  ReadFIFOWords := (\<lambda>m. Some (\<lambda>i. straddle_words ! i))\<rparr>"


definition carrying :: poll where
  "carrying = running\<lparr>partialEvent := (partialEvent running)(0 := [0x80021, 1])\<rparr>"

definition refill_words :: "word_t list" where
  "refill_words = [2, 3, 0x80021, 1, 2, 3, 0x80021, 1, 2, 3, 0x80021, 1]"

definition refill_crate :: pif where
  "refill_crate = quiet_crate\<lparr>CheckFIFOWords := (\<lambda>t m. 12),
                                ReadFIFOWords := (\<lambda>m. Some (\<lambda>i. refill_words ! i))\<rparr>"

text \<open>
  Two passes: the state after a pass that read the ten words of \<open>straddle_words\<close>, and a
  spill forced in that state (the command \<open>spill\<close>) while the FIFO is empty.
\<close>

definition carried :: poll where
  "carried = snd (ReadFIFO straddle_crate crate_defs running)"

definition flushing :: poll where
  "flushing = carried\<lparr>force_spill := True\<rparr>"

definition zero_words :: "nat \<Rightarrow> word_t" where
  "zero_words i = 0"

definition corrupt_crate :: pif where
  "corrupt_crate = quiet_crate\<lparr>CheckFIFOWords := (\<lambda>t m. 9),
                                 ReadFIFOWords := (\<lambda>m. Some zero_words)\<rparr>"

definition debugging_quietly :: poll where
  "debugging_quietly = running\<lparr>debug_mode := True, is_quiet := True\<rparr>"



section \<open>The shared-memory broadcast\<close>



lemma div_ceil_big:
  fixes m x :: nat
  assumes "0 < m" "m < x"
  shows "(x + (m - 1)) div m = Suc ((x - m + (m - 1)) div m)"
proof -
  have "x + (m - 1) = (x - m + (m - 1)) + m" using assms by simp
  then show ?thesis using assms by (metis div_add_self2 Suc_eq_plus1 less_numeral_extra(3))
qed

lemma div_ceil_small:
  fixes m x :: nat
  assumes "0 < x" "x \<le> m"
  shows "(x + (m - 1)) div m = 1"
proof (rule div_nat_eqI)
  show "m * 1 \<le> x + (m - 1)" using assms by simp
  show "x + (m - 1) < m * Suc 1" using assms by simp
qed

lemma div_ceil_mod:
  fixes m n :: nat
  assumes "0 < m"
  shows "(if n mod m \<noteq> 0 then n div m + 1 else n div m) = (n + (m - 1)) div m"
proof -
  have n: "n = m * (n div m) + n mod m" by simp
  have r: "n mod m < m" using assms by simp
  show ?thesis
  proof (cases "n mod m = 0")
    case True
    have "(n + (m - 1)) div m = n div m"
    proof (rule div_nat_eqI)
      show "m * (n div m) \<le> n + (m - 1)" using n by linarith
      have "n = m * (n div m)" using n True by simp
      then show "n + (m - 1) < m * Suc (n div m)" using assms by simp
    qed
    with True show ?thesis by simp
  next
    case False
    have "(n + (m - 1)) div m = n div m + 1"
    proof (rule div_nat_eqI)
      have "m * (n div m) + 1 \<le> n" using n False by linarith
      then show "m * (n div m + 1) \<le> n + (m - 1)" using assms by (simp add: algebra_simps)
      have "n < m * (n div m) + m" using n r by linarith
      then show "n + (m - 1) < m * Suc (n div m + 1)" using assms by (simp add: algebra_simps)
    qed
    with False show ?thesis by simp
  qed
qed

lemma c1: "(10000::nat) < x \<Longrightarrow> (x + 9999) div 10000 = Suc ((x - 10000 + 9999) div 10000)"
  using div_ceil_big [of 10000 x] by simp

lemma c2: "(0::nat) < x \<Longrightarrow> x \<le> 10000 \<Longrightarrow> (x + 9999) div 10000 = 1"
  using div_ceil_small [of x 10000] by simp

lemma c3: "(if n mod 10000 \<noteq> 0 then n div 10000 + 1 else n div 10000) = (n + 9999) div (10000::nat)"
  using div_ceil_mod [of 10000 n] by simp
























section \<open>What the module loop leaves alone\<close>

lemma drain_frame_refl: "drain_frame st st"
  by (simp add: drain_frame_def)

lemma drain_frame_trans: "drain_frame a b \<Longrightarrow> drain_frame b c \<Longrightarrow> drain_frame a c"
  by (simp add: drain_frame_def)

lemma read_module_frame_Inl:
  "read_module g P st nW m dw = Inl s \<Longrightarrow> drain_frame st s \<and> had_error s \<and> stop_acq s"
  by (auto simp: read_module_def finish_module_def drain_frame_def Let_def
           split: if_splits option.splits prod.splits)

lemma read_module_frame_Inr:
  "read_module g P st nW m dw = Inr (s, dw') \<Longrightarrow> drain_frame st s"
  by (auto simp: read_module_def finish_module_def drain_frame_def Let_def
           split: if_splits option.splits prod.splits)

lemma module_loop_frame_Inl:
  "module_loop g P nWords st dw ms = Inl s \<Longrightarrow> drain_frame st s \<and> had_error s \<and> stop_acq s"
proof (induction ms arbitrary: st dw)
  case Nil
  then show ?case by simp
next
  case (Cons m ms)
  show ?case
  proof (cases "read_module g P st (nWords ! m) m dw")
    case (Inl s')
    with Cons.prems have "s' = s" by simp
    with Inl show ?thesis using read_module_frame_Inl by blast
  next
    case (Inr p)
    obtain s' dw' where p: "p = (s', dw')" by (cases p)
    from Inr p Cons.prems have "module_loop g P nWords s' dw' ms = Inl s" by simp
    from Cons.IH [OF this] read_module_frame_Inr [OF Inr [unfolded p]]
    show ?thesis using drain_frame_trans by blast
  qed
qed

lemma module_loop_frame_Inr:
  "module_loop g P nWords st dw ms = Inr (s, dw') \<Longrightarrow> drain_frame st s"
proof (induction ms arbitrary: st dw)
  case Nil
  then show ?case by (simp add: drain_frame_refl)
next
  case (Cons m ms)
  show ?case
  proof (cases "read_module g P st (nWords ! m) m dw")
    case (Inl s')
    with Cons.prems show ?thesis by simp
  next
    case (Inr p)
    obtain s' dw1 where p: "p = (s', dw1)" by (cases p)
    from Inr p Cons.prems have "module_loop g P nWords s' dw1 ms = Inr (s, dw')" by simp
    from Cons.IH [OF this] read_module_frame_Inr [OF Inr [unfolded p]]
    show ?thesis using drain_frame_trans by blast
  qed
qed



section \<open>The command dispatcher\<close>

lemma close_output_file_had_error [simp]:
  "had_error (close_output_file st c) = had_error st"
  by (simp add: close_output_file_def Let_def)

lemma open_output_file_had_error [simp]:
  "had_error (snd (open_output_file st c)) = had_error st"
  by (simp add: open_output_file_def split: prod.splits bool.splits)

lemma StartAcq_had_error [simp]: "had_error (snd (StartAcq st)) = had_error st"
  by (simp add: StartAcq_def)

lemma StopAcq_had_error [simp]: "had_error (snd (StopAcq st)) = had_error st"
  by (simp add: StopAcq_def)

lemma StartRun_had_error [simp]: "had_error (snd (StartRun st)) = had_error st"
proof -
  let ?st1 = "if IsOpen (output_file st) then close_output_file st False else st"
  have 1: "had_error ?st1 = had_error st" by simp
  obtain b st2 where o: "open_output_file ?st1 False = (b, st2)" by fastforce
  have 2: "had_error st2 = had_error ?st1"
    using open_output_file_had_error [of ?st1 False] unfolding o by simp
  show ?thesis
  proof (cases "do_MCA_run st \<or> acq_running st")
    case True
    then show ?thesis by (auto simp: StartRun_def)
  next
    case False
    then have "StartRun st = (case (b, st2) of (False, st2) \<Rightarrow> (False, st2)
                 | (True, st2) \<Rightarrow> (True, snd (StartAcq (st2\<lparr>record_data := True\<rparr>))))"
      unfolding StartRun_def Let_def o by simp
    then show ?thesis using 1 2 by (cases b) simp_all
  qed
qed

lemma StopRun_had_error [simp]: "had_error (snd (StopRun st)) = had_error st"
  by (simp add: StopRun_def)

lemma mca_command_had_error [simp]: "had_error (mca_command st as) = had_error st"
  by (simp add: mca_command_def Let_def)

lemma if_had_error_snd:
  "had_error (snd (if c then x else y)) = (if c then had_error (snd x) else had_error (snd y))"
  by simp

lemma if_had_error:
  "had_error (if c then x else y) = (if c then had_error x else had_error y)"
  by simp

lemma dispatch_had_error: "had_error (snd (dispatch st cmd arg as)) = had_error st"
  unfolding dispatch_def Let_def
  apply (simp only: if_had_error_snd snd_conv if_had_error)
  apply (simp split del: if_split cong: if_cong)
  apply simp
  done

text \<open>
  C10: every line that reaches the dispatcher (a non-empty line that is neither the
  \<open>CTRL_C\<close> token of the terminal nor a tab-completion request) is dispatched from the
  state in which \<open>had_error\<close> has been set to \<open>false\<close>, whatever the command is, and no
  command sets the flag again: after the line has been processed \<open>had_error\<close> is false.
\<close>

theorem command_clears_had_error:
  assumes "line \<noteq> []" and "line \<noteq> ''CTRL_C''" and "CHR 0x09 \<notin> set line"
  shows "(\<exists>verb arg arguments.
            command_step st line = dispatch (st\<lparr>had_error := False\<rparr>) verb arg arguments)
         \<and> \<not> had_error (snd (command_step st line))"
proof -
  let ?cmd = "if line = ''CTRL_D'' then ''quit'' else line"
  let ?arg = "if CHR '' '' \<in> set ?cmd then tl (dropWhile (\<lambda>c. c \<noteq> CHR '' '') ?cmd) else []"
  let ?verb = "if CHR '' '' \<in> set ?cmd then takeWhile (\<lambda>c. c \<noteq> CHR '' '') ?cmd else ?cmd"
  have tab: "CHR 0x09 \<notin> set ?cmd" using assms(3) by simp
  have ne: "?cmd \<noteq> []" using assms(1) by simp
  have step: "command_step st line
                = dispatch (st\<lparr>had_error := False\<rparr>) ?verb ?arg (split_str ?arg)"
    unfolding command_step_def Let_def
    by (simp only: assms(2) tab ne if_False)
  have "\<not> had_error (snd (command_step st line))"
    unfolding step by (simp add: dispatch_had_error)
  with step show ?thesis by blast
qed

text \<open>The query-only command \<open>status\<close> erases an error that was shown before.\<close>

theorem command_clears_had_error_witness:
  "''status'' \<noteq> [] \<and> ''status'' \<noteq> ''CTRL_C'' \<and> CHR 0x09 \<notin> set ''status''
   \<and> had_error error_shown
   \<and> \<not> had_error (snd (command_step error_shown ''status''))"
  using command_clears_had_error [of "''status''" error_shown]
  by (simp add: error_shown_def)



section \<open>The threshold wait\<close>

lemma wait_loop_length:
  "length nWords = cards \<Longrightarrow> length (fst (wait_loop g cards thresh t nWords)) = cards"
proof (induction g cards thresh t nWords rule: wait_loop.induct)
  case (1 g cards thresh timeout nWords)
  show ?case
  proof (cases "timeout < POLL_TRIES")
    case False
    then show ?thesis using "1.prems" by (simp add: wait_loop.simps)
  next
    case True
    have len: "length (poll_round g cards timeout) = cards" by (simp add: poll_round_def)
    show ?thesis
    proof (cases "max_element (poll_round g cards timeout) > thresh")
      case True
      with \<open>timeout < POLL_TRIES\<close> len show ?thesis
        by (subst wait_loop.simps) (simp add: Let_def)
    next
      case False
      with \<open>timeout < POLL_TRIES\<close> "1.IH" [OF \<open>timeout < POLL_TRIES\<close> refl False len]
      show ?thesis by (subst wait_loop.simps) (simp add: Let_def)
    qed
  qed
qed

lemma wait_loop_exhaust:
  "\<forall>k. t \<le> k \<and> k < POLL_TRIES \<longrightarrow> max_element (poll_round g cards k) \<le> thresh \<Longrightarrow>
   t \<le> POLL_TRIES \<Longrightarrow>
   snd (wait_loop g cards thresh t nWords) = POLL_TRIES"
proof (induction g cards thresh t nWords rule: wait_loop.induct)
  case (1 g cards thresh timeout nWords)
  show ?case
  proof (cases "timeout < POLL_TRIES")
    case False
    with "1.prems" show ?thesis by (simp add: wait_loop.simps)
  next
    case True
    with "1.prems" have le: "\<not> max_element (poll_round g cards timeout) > thresh"
      by (simp add: not_less)
    have "snd (wait_loop g cards thresh (timeout + 1) (poll_round g cards timeout)) = POLL_TRIES"
      using "1.IH" [OF True refl le] "1.prems" True by simp
    with True le show ?thesis by (subst wait_loop.simps) (simp add: Let_def)
  qed
qed

lemma wait_loop_bound:
  "t \<le> POLL_TRIES \<Longrightarrow>
   t \<le> snd (wait_loop g cards thresh t nWords)
   \<and> snd (wait_loop g cards thresh t nWords) \<le> POLL_TRIES
   \<and> (snd (wait_loop g cards thresh t nWords) < POLL_TRIES
        \<longrightarrow> max_element (fst (wait_loop g cards thresh t nWords)) > thresh)
   \<and> (t < POLL_TRIES \<longrightarrow> fst (wait_loop g cards thresh t nWords)
          = poll_round g cards (snd (wait_loop g cards thresh t nWords) - 1))
   \<and> (\<forall>k. t \<le> k \<and> k + 1 < snd (wait_loop g cards thresh t nWords)
          \<longrightarrow> max_element (poll_round g cards k) \<le> thresh)"
proof (induction g cards thresh t nWords rule: wait_loop.induct)
  case (1 g cards thresh timeout nWords)
  show ?case
  proof (cases "timeout < POLL_TRIES")
    case False
    with "1.prems" show ?thesis by (simp add: wait_loop.simps)
  next
    case True
    show ?thesis
    proof (cases "max_element (poll_round g cards timeout) > thresh")
      case brk: True
      have "wait_loop g cards thresh timeout nWords = (poll_round g cards timeout, timeout + 1)"
        using True brk by (subst wait_loop.simps) (simp add: Let_def)
      then show ?thesis using True brk by simp
    next
      case go: False
      let ?r = "wait_loop g cards thresh (timeout + 1) (poll_round g cards timeout)"
      have eq: "wait_loop g cards thresh timeout nWords = ?r"
        using True go by (subst wait_loop.simps) (simp add: Let_def)
      have ih: "timeout + 1 \<le> snd ?r \<and> snd ?r \<le> POLL_TRIES
           \<and> (snd ?r < POLL_TRIES \<longrightarrow> max_element (fst ?r) > thresh)
           \<and> (timeout + 1 < POLL_TRIES \<longrightarrow> fst ?r = poll_round g cards (snd ?r - 1))
           \<and> (\<forall>k. timeout + 1 \<le> k \<and> k + 1 < snd ?r
                  \<longrightarrow> max_element (poll_round g cards k) \<le> thresh)"
      proof -
        have "timeout + 1 \<le> POLL_TRIES" using True by simp
        from "1.IH" [OF True refl go this] show ?thesis .
      qed
      have last: "fst ?r = poll_round g cards (snd ?r - 1)"
      proof (cases "timeout + 1 < POLL_TRIES")
        case True
        moreover from ih have "timeout + 1 < POLL_TRIES
            \<longrightarrow> fst ?r = poll_round g cards (snd ?r - 1)"
          by (elim conjE)
        ultimately show ?thesis by blast
      next
        case False
        with True have e: "timeout + 1 = POLL_TRIES" by simp
        then have "?r = (poll_round g cards timeout, POLL_TRIES)"
          by (subst wait_loop.simps) simp
        moreover have "POLL_TRIES - 1 = timeout" using e by simp
        ultimately show ?thesis by simp
      qed
      have early: "max_element (poll_round g cards k) \<le> thresh"
        if "timeout \<le> k" "k + 1 < snd ?r" for k
      proof (cases "k = timeout")
        case True
        with go show ?thesis by simp
      next
        case False
        with that have "timeout + 1 \<le> k \<and> k + 1 < snd ?r" by simp
        moreover from ih have "\<forall>k. timeout + 1 \<le> k \<and> k + 1 < snd ?r
                  \<longrightarrow> max_element (poll_round g cards k) \<le> thresh"
          by (elim conjE)
        ultimately show ?thesis by blast
      qed
      from ih have i1: "timeout + 1 \<le> snd ?r" by (rule conjunct1)
      from ih have c2: "snd ?r \<le> POLL_TRIES" by (elim conjE)
      from ih have c3: "snd ?r < POLL_TRIES \<longrightarrow> max_element (fst ?r) > thresh"
        by (elim conjE)
      from i1 have c1: "timeout \<le> snd ?r" by simp
      have c5: "\<forall>k. timeout \<le> k \<and> k + 1 < snd ?r
                  \<longrightarrow> max_element (poll_round g cards k) \<le> thresh"
        using early by blast
      show ?thesis unfolding eq using c1 c2 c3 last c5 by blast
    qed
  qed
qed

lemma max_element_ge: "m < length xs \<Longrightarrow> xs ! m \<le> max_element xs"
proof -
  have mono: "a \<le> fold max ys a" for ys and a :: nat
    by (induction ys arbitrary: a) (auto intro: order_trans [OF max.cobounded2])
  have "m < length ys \<Longrightarrow> ys ! m \<le> fold max ys a" for ys and a :: nat
  proof (induction ys arbitrary: m a)
    case Nil
    then show ?case by simp
  next
    case (Cons y ys)
    show ?case
    proof (cases m)
      case 0
      have "y \<le> max y a" by simp
      also have "\<dots> \<le> fold max ys (max y a)" by (rule mono)
      finally show ?thesis using 0 by simp
    next
      case (Suc j)
      with Cons show ?thesis by simp
    qed
  qed
  then show "m < length xs \<Longrightarrow> xs ! m \<le> max_element xs" by (simp add: max_element_def)
qed



lemma drain_wait_ge1: "1 \<le> snd (drain_wait g st)"
proof -
  let ?c = "n_cards st" and ?thr = "threshWords st"
  have "wait_loop g ?c ?thr 0 (replicate ?c 0)
          = (if max_element (poll_round g ?c 0) > ?thr then (poll_round g ?c 0, 1)
             else wait_loop g ?c ?thr 1 (poll_round g ?c 0))"
    by (subst wait_loop.simps) (simp add: Let_def POLL_TRIES_def)
  then have "drain_wait g st = (poll_round g ?c 0, 1)
        \<or> drain_wait g st = wait_loop g ?c ?thr 1 (poll_round g ?c 0)"
    unfolding drain_wait_def by (simp split: if_splits)
  moreover have "1 \<le> snd (wait_loop g ?c ?thr 1 (poll_round g ?c 0))"
    using wait_loop_bound [of 1 g ?c ?thr "poll_round g ?c 0"] by (simp add: POLL_TRIES_def)
  ultimately show ?thesis by auto
qed

text \<open>
  C3, as amended: the threshold wait makes at least one and at most \<open>POLL_TRIES\<close> rounds;
  it returns the depths of its last round; it stops before round \<open>POLL_TRIES\<close> only
  when the largest depth of a round exceeds \<open>threshWords\<close>, and no earlier round did.
  The wait does not look at \<open>stop_acq\<close>: it is the same whether the flag is set or not.
  The flag is read after the wait, where it makes a running acquisition read the
  modules.
\<close>

theorem threshold_wait_exit:
  "drain_wait g (st\<lparr>stop_acq := b\<rparr>) = drain_wait g st
   \<and> 1 \<le> snd (drain_wait g st) \<and> snd (drain_wait g st) \<le> POLL_TRIES
   \<and> fst (drain_wait g st) = poll_round g (n_cards st) (snd (drain_wait g st) - 1)
   \<and> (snd (drain_wait g st) < POLL_TRIES
        \<longrightarrow> max_element (fst (drain_wait g st)) > threshWords st)
   \<and> (\<forall>k. k + 1 < snd (drain_wait g st)
        \<longrightarrow> max_element (poll_round g (n_cards st) k) \<le> threshWords st)
   \<and> (acq_running st \<and> stop_acq st
        \<longrightarrow> ReadFIFO g P st
            = drain_modules g P (fst (drain_wait g st)) (st\<lparr>force_spill := False\<rparr>))"
proof -
  let ?W = "wait_loop g (n_cards st) (threshWords st) 0 (replicate (n_cards st) 0)"
  have b: "0 \<le> snd ?W \<and> snd ?W \<le> POLL_TRIES
        \<and> (snd ?W < POLL_TRIES \<longrightarrow> max_element (fst ?W) > threshWords st)
        \<and> (0 < POLL_TRIES \<longrightarrow> fst ?W = poll_round g (n_cards st) (snd ?W - 1))
        \<and> (\<forall>k. 0 \<le> k \<and> k + 1 < snd ?W
               \<longrightarrow> max_element (poll_round g (n_cards st) k) \<le> threshWords st)"
    by (rule wait_loop_bound) simp
  have 1: "drain_wait g (st\<lparr>stop_acq := b\<rparr>) = drain_wait g st"
    by (simp add: drain_wait_def)
  have 2: "1 \<le> snd (drain_wait g st)" by (rule drain_wait_ge1)
  have 3: "snd (drain_wait g st) \<le> POLL_TRIES" using b by (simp add: drain_wait_def)
  have 4: "fst (drain_wait g st) = poll_round g (n_cards st) (snd (drain_wait g st) - 1)"
    using b by (simp add: drain_wait_def POLL_TRIES_def)
  have 5: "snd (drain_wait g st) < POLL_TRIES
             \<longrightarrow> max_element (fst (drain_wait g st)) > threshWords st"
    unfolding drain_wait_def using b by (elim conjE)
  have 6: "\<forall>k. k + 1 < snd (drain_wait g st)
             \<longrightarrow> max_element (poll_round g (n_cards st) k) \<le> threshWords st"
    unfolding drain_wait_def using b by simp
  have 7: "acq_running st \<and> stop_acq st
        \<longrightarrow> ReadFIFO g P st
            = drain_modules g P (fst (drain_wait g st)) (st\<lparr>force_spill := False\<rparr>)"
    by (simp add: ReadFIFO_def split: prod.splits)
  from 1 2 3 4 5 6 7 show ?thesis by blast
qed

lemma busy_wait: "drain_wait busy_crate stopping = ([5], 1)"
  unfolding drain_wait_def
  by (subst wait_loop.simps)
     (simp add: POLL_TRIES_def poll_round_def busy_crate_def quiet_crate_def stopping_def
        Poll_def max_element_def w32_def)

text \<open>A crate whose FIFO holds 5 words, threshold 0: the wait ends in its first round.\<close>

theorem threshold_wait_exit_witness:
  "snd (drain_wait busy_crate stopping) < POLL_TRIES
   \<and> acq_running stopping \<and> stop_acq stopping
   \<and> max_element (fst (drain_wait busy_crate stopping)) > threshWords stopping
   \<and> ReadFIFO busy_crate crate_defs stopping
       = drain_modules busy_crate crate_defs (fst (drain_wait busy_crate stopping))
           (stopping\<lparr>force_spill := False\<rparr>)"
proof -
  have h1: "snd (drain_wait busy_crate stopping) < POLL_TRIES"
    by (simp add: busy_wait POLL_TRIES_def)
  have h2: "acq_running stopping \<and> stop_acq stopping"
    by (simp add: stopping_def)
  from threshold_wait_exit [where g = busy_crate and st = stopping and b = True and P = crate_defs] h1 h2
  show ?thesis by blast
qed

text \<open>
  C3 as stated fails: with \<open>stop_acq\<close> set and FIFOs that stay empty, the wait makes all
  100 rounds.
\<close>

theorem stop_acq_does_not_break_wait:
  "stop_acq stopping \<and> snd (drain_wait quiet_crate stopping) = 100"
proof -
  have "max_element (poll_round quiet_crate (n_cards stopping) k) \<le> threshWords stopping" for k
    by (simp add: poll_round_def quiet_crate_def stopping_def Poll_def max_element_def w32_def)
  then have "snd (drain_wait quiet_crate stopping) = POLL_TRIES"
    unfolding drain_wait_def by (intro wait_loop_exhaust) simp_all
  then show ?thesis by (simp add: POLL_TRIES_def stopping_def)
qed

section \<open>A full FIFO\<close>









section \<open>The run control\<close>

lemma write_data_flags:
  "kill_all (write_data st d n) = kill_all st
   \<and> acq_running (write_data st d n) = acq_running st
   \<and> stop_acq (write_data st d n) = stop_acq st"
  by (simp add: write_data_def open_output_file_def close_output_file_def OpenNewFile_def
        Let_def)

lemma broadcast_data_flags:
  "kill_all (broadcast_data st d n) = kill_all st
   \<and> acq_running (broadcast_data st d n) = acq_running st
   \<and> stop_acq (broadcast_data st d n) = stop_acq st"
  by (simp add: broadcast_data_def)

lemma drain_modules_flags:
  "kill_all (snd (drain_modules g P W st)) = kill_all st
   \<and> acq_running (snd (drain_modules g P W st)) = acq_running st
   \<and> (stop_acq st \<longrightarrow> stop_acq (snd (drain_modules g P W st)))"
proof (cases "module_loop g P W st 0 [0 ..< n_cards st]")
  case (Inl s)
  from module_loop_frame_Inl [OF Inl] Inl show ?thesis
    by (simp add: drain_modules_def drain_frame_def)
next
  case (Inr p)
  obtain s dw where p: "p = (s, dw)" by (cases p)
  from module_loop_frame_Inr [OF Inr [unfolded p]] have fr: "drain_frame st s" .
  have "snd (drain_modules g P W st)
          = broadcast_data (if record_data s then write_data s (fifoData s) (w32 dw) else s)
              (fifoData (if record_data s then write_data s (fifoData s) (w32 dw) else s))
              (w32 dw)"
    using Inr p by (simp add: drain_modules_def Let_def)
  then show ?thesis using fr
    by (simp add: broadcast_data_flags write_data_flags drain_frame_def)
qed

lemma ReadFIFO_flags:
  "kill_all (snd (ReadFIFO g P st)) = kill_all st
   \<and> acq_running (snd (ReadFIFO g P st)) = acq_running st
   \<and> (stop_acq st \<longrightarrow> stop_acq (snd (ReadFIFO g P st)))"
proof -
  obtain W r where wr: "drain_wait g st = (W, r)" by (cases "drain_wait g st")
  show ?thesis
    using drain_modules_flags [of g P W "st\<lparr>force_spill := False\<rparr>"]
    by (simp add: ReadFIFO_def wr)
qed

lemma end_of_run_stopped:
  "\<not> acq_running st \<Longrightarrow>
   \<not> acq_running (end_of_run g P st ms) \<and> kill_all (end_of_run g P st ms) = kill_all st"
proof (induction ms arbitrary: st)
  case Nil
  then show ?case by simp
next
  case (Cons m ms)
  have idle: "snd (ReadFIFO g P (st\<lparr>force_spill := True\<rparr>)) = st\<lparr>force_spill := True\<rparr>"
    using Cons.prems by (simp add: ReadFIFO_def)
  let ?st1 = "if CheckRunStatus g 0 m = 1
              then snd (ReadFIFO g P (st\<lparr>force_spill := True\<rparr>)) else st"
  let ?st2 = "if CheckRunStatus g 1 m = 0 then ?st1 else ?st1\<lparr>had_error := True\<rparr>"
  have a: "\<not> acq_running ?st2" and k: "kill_all ?st2 = kill_all st"
    using Cons.prems idle by simp_all
  have eq: "end_of_run g P st (m # ms) = end_of_run g P ?st2 ms"
    by (simp only: end_of_run.simps Let_def)
  from Cons.IH [OF a]
  have "\<not> acq_running (end_of_run g P ?st2 ms)"
    and "kill_all (end_of_run g P ?st2 ms) = kill_all ?st2" by blast+
  then show ?case unfolding eq k by blast
qed

lemma tick_rest_stops:
  assumes "acq_running st" and "stop_acq st"
  shows "\<not> acq_running (tick_rest g P st) \<and> kill_all (tick_rest g P st) = kill_all st"
proof -
  let ?a = "tick_start g (tick_mca (tick_reboot st))"
  have a: "acq_running ?a \<and> stop_acq ?a \<and> kill_all ?a = kill_all st"
    using assms by (simp add: tick_start_def tick_mca_def tick_reboot_def)
  let ?s1 = "snd (ReadFIFO g P ?a)"
  from a ReadFIFO_flags [of g P ?a]
  have s1: "stop_acq ?s1" "kill_all ?s1 = kill_all st" by simp_all
  let ?s2 = "?s1\<lparr>pixie := pixie ?s1 @ [EndRun], stop_acq := False, acq_running := False\<rparr>"
  have "tick_rest g P st = end_of_run g P ?s2 [0 ..< n_cards ?s1]"
    using a s1 by (simp add: tick_rest_def tick_acq_def Let_def)
  moreover have "\<not> acq_running ?s2" by simp
  ultimately show ?thesis using end_of_run_stopped [of ?s2 g P "[0 ..< n_cards ?s1]"] s1
    by simp
qed

text \<open>
  C8: \<open>kill_all\<close> is looked at first in every iteration of the run control. With no
  acquisition running the iteration leaves the loop at once: the only change to the
  state is \<open>run_ctrl_exit\<close>, so no reboot, MCA run or acquisition work has been done. With
  an acquisition running, \<open>stop_acq\<close> is forced before the rest of the iteration runs;
  that rest then ends the acquisition and keeps \<open>kill_all\<close>, so the next iteration is
  of the first kind.
\<close>

theorem kill_all_first:
  assumes "kill_all st"
  shows "(\<not> acq_running st \<longrightarrow> run_control_tick g P st = Exited (st\<lparr>run_ctrl_exit := True\<rparr>))
       \<and> (acq_running st \<longrightarrow>
            run_control_tick g P st = Running (tick_rest g P (st\<lparr>stop_acq := True\<rparr>))
            \<and> \<not> acq_running (tick_rest g P (st\<lparr>stop_acq := True\<rparr>))
            \<and> kill_all (tick_rest g P (st\<lparr>stop_acq := True\<rparr>)))"
proof (intro conjI impI)
  assume "\<not> acq_running st"
  with assms show "run_control_tick g P st = Exited (st\<lparr>run_ctrl_exit := True\<rparr>)"
    by (simp add: run_control_tick_def)
next
  assume r: "acq_running st"
  with assms show "run_control_tick g P st = Running (tick_rest g P (st\<lparr>stop_acq := True\<rparr>))"
    by (simp add: run_control_tick_def)
  from r tick_rest_stops [of "st\<lparr>stop_acq := True\<rparr>" g P] assms
  show "\<not> acq_running (tick_rest g P (st\<lparr>stop_acq := True\<rparr>))"
    and "kill_all (tick_rest g P (st\<lparr>stop_acq := True\<rparr>))"
    by simp_all
qed

text \<open>Killing a running acquisition, and the iteration after it has stopped.\<close>

theorem kill_all_first_witness:
  "kill_all killed_running \<and> acq_running killed_running
   \<and> \<not> acq_running (tick_rest quiet_crate crate_defs (killed_running\<lparr>stop_acq := True\<rparr>))
   \<and> \<not> acq_running (killed_running\<lparr>acq_running := False\<rparr>)
   \<and> run_control_tick quiet_crate crate_defs (killed_running\<lparr>acq_running := False\<rparr>)
      = Exited (killed_running\<lparr>acq_running := False, run_ctrl_exit := True\<rparr>)"
proof -
  have h: "kill_all killed_running" "acq_running killed_running"
    by (simp_all add: killed_running_def)
  have h': "kill_all (killed_running\<lparr>acq_running := False\<rparr>)"
    by (simp add: killed_running_def)
  from kill_all_first [OF h(1), of quiet_crate crate_defs]
       kill_all_first [OF h', of quiet_crate crate_defs] h
  show ?thesis by simp
qed

section \<open>Opening the output file\<close>

text \<open>
  C9, as amended: when the output file cannot be opened, \<open>open_output_file\<close> clears
  \<open>record_data\<close> and changes nothing else, so a running acquisition goes on without
  recording and a start that was already requested stays requested. \<open>StartRun\<close> (the
  \<open>run\<close> command) then returns \<open>false\<close> without requesting the acquisition: \<open>start_acq\<close>
  is left as it was, and \<open>record_data\<close> is false.
\<close>

theorem open_failure_clears_record_data:
  assumes "\<not> open_succeeds (output_file st)"
  shows "(\<not> IsOpen (output_file st) \<longrightarrow>
            open_output_file st c = (False, st\<lparr>record_data := False\<rparr>))
       \<and> (\<not> do_MCA_run st \<and> \<not> acq_running st \<longrightarrow>
            fst (StartRun st) = False
            \<and> start_acq (snd (StartRun st)) = start_acq st
            \<and> \<not> acq_running (snd (StartRun st))
            \<and> \<not> record_data (snd (StartRun st)))"
proof (intro conjI impI)
  assume "\<not> IsOpen (output_file st)"
  with assms show "open_output_file st c = (False, st\<lparr>record_data := False\<rparr>)"
    by (simp add: open_output_file_def OpenNewFile_def)
next
  assume idle: "\<not> do_MCA_run st \<and> \<not> acq_running st"
  let ?st1 = "if IsOpen (output_file st) then close_output_file st False else st"
  have closed: "\<not> IsOpen (output_file ?st1)"
    by (simp add: close_output_file_def CloseFile_def IsOpen_def Let_def)
  have fail: "\<not> open_succeeds (output_file ?st1)"
    using assms by (simp add: close_output_file_def CloseFile_def IsOpen_def Let_def)
  have o: "open_output_file ?st1 False = (False, ?st1\<lparr>record_data := False\<rparr>)"
    using closed fail by (simp add: open_output_file_def OpenNewFile_def)
  have sr: "StartRun st = (False, ?st1\<lparr>record_data := False\<rparr>)"
    using idle unfolding StartRun_def Let_def o by simp
  have keep: "start_acq ?st1 = start_acq st" "acq_running ?st1 = acq_running st"
    by (simp_all add: close_output_file_def Let_def)
  show "fst (StartRun st) = False" by (simp add: sr)
  show "start_acq (snd (StartRun st)) = start_acq st" using keep by (simp add: sr)
  show "\<not> acq_running (snd (StartRun st))" using keep idle by (simp add: sr)
  show "\<not> record_data (snd (StartRun st))" by (simp add: sr)
qed

text \<open>A fresh program whose output directory cannot be written.\<close>

theorem open_failure_clears_record_data_witness:
  "\<not> open_succeeds (output_file unwritable) \<and> \<not> IsOpen (output_file unwritable)
   \<and> \<not> do_MCA_run unwritable \<and> \<not> acq_running unwritable
   \<and> open_output_file unwritable False = (False, unwritable\<lparr>record_data := False\<rparr>)
   \<and> \<not> start_acq (snd (StartRun unwritable))"
proof -
  have h: "\<not> open_succeeds (output_file unwritable)"
    and h2: "\<not> IsOpen (output_file unwritable)"
    and h3: "\<not> do_MCA_run unwritable \<and> \<not> acq_running unwritable"
    and h4: "\<not> start_acq unwritable"
    by (simp_all add: unwritable_def Poll_def new_sink_def IsOpen_def)
  from open_failure_clears_record_data [OF h, of False] h h2 h3 h4
  show ?thesis by simp
qed

lemma run_unwritable:
  "snd (command_step unwritable ''run'') = unwritable"
  by (simp add: command_step_def dispatch_def StartRun_def open_output_file_def
        OpenNewFile_def IsOpen_def split_str_def unwritable_def Poll_def new_sink_def Let_def)

text \<open>
  C9 as stated fails: after \<open>run\<close> with a file that cannot be opened, \<open>start_acq\<close> is not
  set, and the next iteration of the run control starts no acquisition.
\<close>

theorem run_with_failed_open_starts_nothing:
  "\<not> open_succeeds (output_file unwritable)
   \<and> \<not> start_acq (snd (command_step unwritable ''run''))
   \<and> run_control_tick quiet_crate crate_defs (snd (command_step unwritable ''run''))
       = Running (snd (command_step unwritable ''run''))
   \<and> \<not> acq_running (snd (command_step unwritable ''run''))
   \<and> pixie (snd (command_step unwritable ''run'')) = []"
  unfolding run_unwritable
  by (simp add: run_control_tick_def tick_rest_def tick_acq_def tick_start_def tick_mca_def
        tick_reboot_def unwritable_def Poll_def new_sink_def)



section \<open>The run number of the open file\<close>

lemma run_linked_frame:
  "file_open s = file_open st \<Longrightarrow> output_file s = output_file st \<Longrightarrow>
   next_run_num s = next_run_num st \<Longrightarrow> run_linked s = run_linked st"
  by (simp add: run_linked_def)

lemma run_linked_Poll: "run_linked (Poll cards thresh)"
  by (simp add: run_linked_def Poll_def new_sink_def IsOpen_def)

lemma run_linked_close: "run_linked st \<Longrightarrow> run_linked (close_output_file st c)"
  by (simp add: run_linked_def close_output_file_def CloseFile_def IsOpen_def Let_def)

lemma run_linked_open: "run_linked st \<Longrightarrow> run_linked (snd (open_output_file st c))"
  by (simp add: run_linked_def open_output_file_def OpenNewFile_def IsOpen_def)

lemma run_linked_Write:
  "run_linked (st\<lparr>output_file := Write (output_file st) ws\<rparr>) = run_linked st"
  by (simp add: run_linked_def Write_def IsOpen_def)

lemma run_linked_write_data: "run_linked st \<Longrightarrow> run_linked (write_data st data n)"
proof -
  assume inv: "run_linked st"
  let ?st1 = "if \<not> IsOpen (output_file st) then snd (open_output_file st False) else st"
  let ?st2 = "if GetFilesize (output_file ?st1) + w32 (4 * n + 65552) > MAX_FILE_SIZE
              then snd (open_output_file (close_output_file ?st1 True) True) else ?st1"
  have 1: "run_linked ?st1" using inv by (simp add: run_linked_open)
  have 2: "run_linked ?st2" using 1 by (simp add: run_linked_open run_linked_close)
  have "write_data st data n = ?st2\<lparr>output_file := Write (output_file ?st2) (map data [0 ..< n])\<rparr>"
    by (simp only: write_data_def Let_def)
  then show ?thesis using 2 by (simp only: run_linked_Write)
qed

lemma run_linked_broadcast_data: "run_linked (broadcast_data st data n) = run_linked st"
  by (simp add: broadcast_data_def run_linked_def)

lemma run_linked_StartAcq: "run_linked (snd (StartAcq st)) = run_linked st"
  by (simp add: StartAcq_def run_linked_def)

lemma run_linked_StopAcq: "run_linked (snd (StopAcq st)) = run_linked st"
  by (simp add: StopAcq_def run_linked_def)

lemma run_linked_StopRun: "run_linked (snd (StopRun st)) = run_linked st"
  by (simp add: StopRun_def StopAcq_def run_linked_def)

lemma run_linked_StartRun: "run_linked st \<Longrightarrow> run_linked (snd (StartRun st))"
proof -
  assume inv: "run_linked st"
  let ?st1 = "if IsOpen (output_file st) then close_output_file st False else st"
  have 1: "run_linked ?st1" using inv by (simp add: run_linked_close)
  obtain b st2 where o: "open_output_file ?st1 False = (b, st2)" by fastforce
  have 2: "run_linked st2" using run_linked_open [OF 1, of False] unfolding o by simp
  have 3: "run_linked (snd (StartAcq (st2\<lparr>record_data := True\<rparr>)))"
    using 2 by (simp add: run_linked_StartAcq) (simp add: run_linked_def)
  show ?thesis
  proof (cases "do_MCA_run st \<or> acq_running st")
    case True
    then show ?thesis using inv by (auto simp: StartRun_def)
  next
    case False
    then have "StartRun st = (case (b, st2) of (False, st2) \<Rightarrow> (False, st2)
                 | (True, st2) \<Rightarrow> (True, snd (StartAcq (st2\<lparr>record_data := True\<rparr>))))"
      unfolding StartRun_def Let_def o by simp
    then show ?thesis using 2 3 by (cases b) simp_all
  qed
qed

lemma run_linked_mca_command: "run_linked (mca_command st as) = run_linked st"
  by (simp add: mca_command_def Let_def run_linked_def)

lemma if_run_linked_snd:
  "run_linked (snd (if c then x else y)) = (if c then run_linked (snd x) else run_linked (snd y))"
  by simp

lemma if_run_linked:
  "run_linked (if c then x else y) = (if c then run_linked x else run_linked y)"
  by simp

lemma run_linked_updates:
  "run_linked (st\<lparr>kill_all := a\<rparr>) = run_linked st"
  "run_linked (st\<lparr>stop_acq := a\<rparr>) = run_linked st"
  "run_linked (st\<lparr>shm_mode := a\<rparr>) = run_linked st"
  "run_linked (st\<lparr>do_reboot := a\<rparr>) = run_linked st"
  "run_linked (st\<lparr>force_spill := a\<rparr>) = run_linked st"
  "run_linked (st\<lparr>debug_mode := a\<rparr>) = run_linked st"
  "run_linked (st\<lparr>is_quiet := a\<rparr>) = run_linked st"
  "run_linked (st\<lparr>output_title := t\<rparr>) = run_linked st"
  "run_linked (st\<lparr>facility := t\<rparr>) = run_linked st"
  "run_linked (st\<lparr>output_format := i\<rparr>) = run_linked st"
  "run_linked (st\<lparr>pixie := p\<rparr>) = run_linked st"
  "run_linked (st\<lparr>had_error := a\<rparr>) = run_linked st"
  "run_linked (st\<lparr>run_ctrl_exit := a\<rparr>) = run_linked st"
  by (simp_all add: run_linked_def)

lemma run_linked_renumber:
  "run_linked st \<Longrightarrow> \<not> file_open st \<Longrightarrow>
   run_linked (st\<lparr>next_run_num := r\<rparr>)
   \<and> run_linked (st\<lparr>filename_prefix := p, next_run_num := r\<rparr>)
   \<and> run_linked (st\<lparr>output_directory := d, current_file_num := k, next_run_num := r\<rparr>)"
  by (simp add: run_linked_def)

lemma if_not_open:
  "run_linked st \<Longrightarrow>
   (if file_open st then True else run_linked (st\<lparr>next_run_num := r\<rparr>))
   \<and> (if file_open st then True
       else run_linked (st\<lparr>filename_prefix := p, next_run_num := r\<rparr>))
   \<and> (if file_open st then True
       else run_linked (st\<lparr>output_directory := d, current_file_num := k, next_run_num := r\<rparr>))"
  using run_linked_renumber by simp

lemma run_linked_dispatch:
  assumes inv: "run_linked st"
  shows "run_linked (snd (dispatch st cmd arg as))"
  unfolding dispatch_def Let_def
  apply (simp only: if_run_linked_snd snd_conv if_run_linked)
  apply (simp only: run_linked_updates run_linked_StartAcq run_linked_StopAcq
           run_linked_StopRun run_linked_mca_command run_linked_StartRun [OF inv]
           run_linked_close [OF inv] inv)
  apply (simp split del: if_split cong: if_cong add: if_not_open [OF inv])
  apply (simp add: run_linked_updates inv)
  done

lemma run_linked_command_step: "run_linked st \<Longrightarrow> run_linked (snd (command_step st line))"
proof -
  assume inv: "run_linked st"
  then have inv': "run_linked (st\<lparr>had_error := False\<rparr>)" by (simp add: run_linked_updates)
  show ?thesis
    unfolding command_step_def Let_def
    using inv run_linked_dispatch [OF inv'] by simp
qed

lemma run_linked_drain_frame: "drain_frame st s \<Longrightarrow> run_linked s = run_linked st"
  by (simp add: drain_frame_def run_linked_def)

lemma run_linked_drain_modules:
  assumes inv: "run_linked st"
  shows "run_linked (snd (drain_modules g P W st))"
proof (cases "module_loop g P W st 0 [0 ..< n_cards st]")
  case (Inl s)
  from module_loop_frame_Inl [OF Inl] have "drain_frame st s" by blast
  then have "run_linked s" using inv by (simp add: run_linked_drain_frame)
  then show ?thesis using Inl by (simp add: drain_modules_def)
next
  case (Inr p)
  obtain s dw where p: "p = (s, dw)" by (cases p)
  from module_loop_frame_Inr [OF Inr [unfolded p]] have "drain_frame st s" .
  then have s: "run_linked s" using inv by (simp add: run_linked_drain_frame)
  let ?s1 = "if record_data s then write_data s (fifoData s) (w32 dw) else s"
  have 1: "run_linked ?s1" using s by (simp add: run_linked_write_data)
  have "snd (drain_modules g P W st) = broadcast_data ?s1 (fifoData ?s1) (w32 dw)"
    using Inr p by (simp add: drain_modules_def Let_def)
  then show ?thesis using 1 by (simp only: run_linked_broadcast_data)
qed

lemma run_linked_ReadFIFO: "run_linked st \<Longrightarrow> run_linked (snd (ReadFIFO g P st))"
proof -
  assume inv: "run_linked st"
  obtain W r where wr: "drain_wait g st = (W, r)" by (cases "drain_wait g st")
  have "run_linked (st\<lparr>force_spill := False\<rparr>)" using inv by (simp add: run_linked_updates)
  from run_linked_drain_modules [OF this, of g P W] inv
  show ?thesis by (simp add: ReadFIFO_def wr)
qed

lemma run_linked_end_of_run: "run_linked st \<Longrightarrow> run_linked (end_of_run g P st ms)"
proof (induction ms arbitrary: st)
  case Nil
  then show ?case by simp
next
  case (Cons m ms)
  let ?st1 = "if CheckRunStatus g 0 m = 1
              then snd (ReadFIFO g P (st\<lparr>force_spill := True\<rparr>)) else st"
  let ?st2 = "if CheckRunStatus g 1 m = 0 then ?st1 else ?st1\<lparr>had_error := True\<rparr>"
  have "run_linked (st\<lparr>force_spill := True\<rparr>)"
    using Cons.prems by (simp add: run_linked_updates)
  then have "run_linked (snd (ReadFIFO g P (st\<lparr>force_spill := True\<rparr>)))"
    by (rule run_linked_ReadFIFO)
  then have 1: "run_linked ?st1" using Cons.prems by simp
  then have 2: "run_linked ?st2" by (simp add: run_linked_updates)
  have eq: "end_of_run g P st (m # ms) = end_of_run g P ?st2 ms"
    by (simp only: end_of_run.simps Let_def)
  show ?case unfolding eq by (rule Cons.IH [OF 2])
qed

lemma run_linked_tick_rest: "run_linked st \<Longrightarrow> run_linked (tick_rest g P st)"
proof -
  assume inv: "run_linked st"
  define a where "a = tick_start g (tick_mca (tick_reboot st))"
  define s1 where "s1 = snd (ReadFIFO g P a)"
  define e where "e = end_of_run g P (s1\<lparr>pixie := pixie s1 @ [EndRun], stop_acq := False,
                                           acq_running := False\<rparr>) [0 ..< n_cards s1]"
  have "run_linked a = run_linked st"
    by (simp add: a_def tick_start_def tick_mca_def tick_reboot_def run_linked_def)
  then have a: "run_linked a" using inv by simp
  have s1: "run_linked s1" unfolding s1_def using a by (rule run_linked_ReadFIFO)
  have "run_linked (s1\<lparr>pixie := pixie s1 @ [EndRun], stop_acq := False, acq_running := False\<rparr>)"
    using s1 by (simp add: run_linked_def)
  then have e: "run_linked e" unfolding e_def by (rule run_linked_end_of_run)
  have "tick_rest g P st = (if acq_running a then if stop_acq s1 then e else s1 else a)"
    by (simp add: tick_rest_def tick_acq_def Let_def a_def s1_def e_def)
  then show ?thesis using a s1 e by simp
qed

lemma run_linked_run_control_tick:
  assumes "run_linked st"
    and "run_control_tick g P st = Running s \<or> run_control_tick g P st = Exited s"
  shows "run_linked s"
proof -
  have "run_linked (st\<lparr>stop_acq := True\<rparr>)" using assms(1) by (simp add: run_linked_updates)
  then have 1: "run_linked (tick_rest g P (st\<lparr>stop_acq := True\<rparr>))"
    by (rule run_linked_tick_rest)
  have 2: "run_linked (tick_rest g P st)" using assms(1) by (rule run_linked_tick_rest)
  have 3: "run_linked (st\<lparr>run_ctrl_exit := True\<rparr>)"
    using assms(1) by (simp add: run_linked_updates)
  from assms(2) 1 2 3 show ?thesis
    by (auto simp: run_control_tick_def split: if_splits)
qed

section \<open>The file ceiling\<close>

text \<open>
  C4, as amended: \<open>write_data\<close> is called with a file open whose run number is
  \<open>next_run_num\<close> (\<open>run_linked\<close>, which the program maintains) and \<open>n\<close> words, \<open>n\<close> small
  enough for \<open>4 * n + 65552\<close> not to wrap in 32 bits (every spill buffer is). If the size
  of the file plus \<open>4 * n + 65552\<close> exceeds \<open>2 ^ 32\<close>, the current file is closed as it
  is, with no word of the spill in it, and \<open>next_run_num\<close> does not change. If the new
  file can then be opened, it has the run number of the closed file and the next
  suffix, and it holds exactly the \<open>n\<close> words of the spill; if it cannot, no file is
  open, \<open>record_data\<close> is cleared and the spill is in no file. When the size is not
  exceeded the \<open>n\<close> words are appended to the current file. In no case are the words of
  a spill in two files.
\<close>

theorem write_data_rotates_first:
  assumes "IsOpen (output_file st)" and "run_linked st" and "4 * n + 65552 < (2::nat) ^ 32"
  shows "(GetFilesize (output_file st) + 4 * n + 65552 > 2 ^ 32 \<longrightarrow>
            closed_files (output_file (write_data st data n))
              = closed_files (output_file st)
                @ [(run_number (output_file st), file_suffix (output_file st),
                    contents (output_file st))]
          \<and> next_run_num (write_data st data n) = next_run_num st
          \<and> (open_succeeds (output_file st) \<longrightarrow>
                is_open (output_file (write_data st data n))
              \<and> run_number (output_file (write_data st data n)) = run_number (output_file st)
              \<and> file_suffix (output_file (write_data st data n))
                  = file_suffix (output_file st) + 1
              \<and> contents (output_file (write_data st data n)) = map data [0 ..< n]
              \<and> record_data (write_data st data n) = record_data st
              \<and> sent (write_data st data n)
                  = sent st @ [Ctrl ''$CLOSE_FILE'' 12, Ctrl ''$OPEN_FILE'' 12])
          \<and> (\<not> open_succeeds (output_file st) \<longrightarrow>
                \<not> is_open (output_file (write_data st data n))
              \<and> \<not> record_data (write_data st data n)
              \<and> sent (write_data st data n) = sent st @ [Ctrl ''$CLOSE_FILE'' 12]))
       \<and> (GetFilesize (output_file st) + 4 * n + 65552 \<le> 2 ^ 32 \<longrightarrow>
            write_data st data n
              = st\<lparr>output_file := Write (output_file st) (map data [0 ..< n])\<rparr>
          \<and> contents (output_file (write_data st data n))
              = contents (output_file st) @ map data [0 ..< n]
          \<and> closed_files (output_file (write_data st data n)) = closed_files (output_file st))
       \<and> run_linked (write_data st data n)"
proof -
  have w: "w32 (4 * n + 65552) = 4 * n + 65552"
    using assms(3) by (simp add: w32_def)
  have r: "run_number (output_file st) = next_run_num st"
    using assms(1,2) by (simp add: run_linked_def)
  have rl: "run_linked (write_data st data n)" using assms(2) by (rule run_linked_write_data)
  have over: "GetFilesize (output_file st) + 4 * n + 65552 > 2 ^ 32 \<longrightarrow>
            closed_files (output_file (write_data st data n))
              = closed_files (output_file st)
                @ [(run_number (output_file st), file_suffix (output_file st),
                    contents (output_file st))]
          \<and> next_run_num (write_data st data n) = next_run_num st
          \<and> (open_succeeds (output_file st) \<longrightarrow>
                is_open (output_file (write_data st data n))
              \<and> run_number (output_file (write_data st data n)) = run_number (output_file st)
              \<and> file_suffix (output_file (write_data st data n))
                  = file_suffix (output_file st) + 1
              \<and> contents (output_file (write_data st data n)) = map data [0 ..< n]
              \<and> record_data (write_data st data n) = record_data st
              \<and> sent (write_data st data n)
                  = sent st @ [Ctrl ''$CLOSE_FILE'' 12, Ctrl ''$OPEN_FILE'' 12])
          \<and> (\<not> open_succeeds (output_file st) \<longrightarrow>
                \<not> is_open (output_file (write_data st data n))
              \<and> \<not> record_data (write_data st data n)
              \<and> sent (write_data st data n) = sent st @ [Ctrl ''$CLOSE_FILE'' 12])"
    using assms(1) r
    by (simp add: write_data_def w MAX_FILE_SIZE_def Let_def open_output_file_def
          close_output_file_def OpenNewFile_def CloseFile_def Write_def IsOpen_def
          GetFilesize_def)
  have under: "GetFilesize (output_file st) + 4 * n + 65552 \<le> 2 ^ 32 \<longrightarrow>
            write_data st data n
              = st\<lparr>output_file := Write (output_file st) (map data [0 ..< n])\<rparr>
          \<and> contents (output_file (write_data st data n))
              = contents (output_file st) @ map data [0 ..< n]
          \<and> closed_files (output_file (write_data st data n)) = closed_files (output_file st)"
    using assms(1)
    by (simp add: write_data_def w MAX_FILE_SIZE_def Let_def Write_def IsOpen_def
          GetFilesize_def)
  from over under rl show ?thesis by (intro conjI)
qed

text \<open>Run 7, 4096 bytes below the ceiling, a spill of two words.\<close>

theorem write_data_rotates_first_witness:
  "IsOpen (output_file recording) \<and> run_linked recording \<and> 4 * 2 + 65552 < (2::nat) ^ 32
   \<and> GetFilesize (output_file recording) + 4 * 2 + 65552 > 2 ^ 32
   \<and> open_succeeds (output_file recording)
   \<and> run_number (output_file recording) = 7
   \<and> run_number (output_file (write_data recording (fifoData recording) 2)) = 7
   \<and> file_suffix (output_file (write_data recording (fifoData recording) 2)) = 1
   \<and> contents (output_file (write_data recording (fifoData recording) 2)) = [0, 0]
   \<and> closed_files (output_file (write_data recording (fifoData recording) 2)) = [(7, 0, [])]"
proof -
  have h1: "IsOpen (output_file recording)" and h2: "4 * 2 + 65552 < (2::nat) ^ 32"
    and h3: "GetFilesize (output_file recording) + 4 * 2 + 65552 > 2 ^ 32"
    and h4: "open_succeeds (output_file recording)"
    and h5: "run_linked recording"
    by (simp_all add: recording_def near_ceiling_def new_sink_def Poll_def IsOpen_def
          GetFilesize_def run_linked_def)
  have v: "next_run_num recording = 7" "file_suffix (output_file recording) = 0"
    "closed_files (output_file recording) = []" "contents (output_file recording) = []"
    "run_number (output_file recording) = 7"
    "map (fifoData recording) [0 ..< 2] = [0, 0]"
    by (simp_all add: recording_def near_ceiling_def new_sink_def Poll_def upt_rec)
  from write_data_rotates_first [OF h1 h5 h2, of "fifoData recording"] h1 h2 h3 h4 h5 v
  show ?thesis by simp
qed

text \<open>
  C4 as stated fails when the continuation file cannot be opened: the current file has
  been closed, no file is open, the spill is in no file, and \<open>record_data\<close> is cleared.
\<close>

theorem failed_rotation_loses_spill:
  "IsOpen (output_file recording_stuck)
   \<and> GetFilesize (output_file recording_stuck) + 4 * 2 + 65552 > 2 ^ 32
   \<and> \<not> is_open (output_file (write_data recording_stuck (fifoData recording_stuck) 2))
   \<and> closed_files (output_file (write_data recording_stuck (fifoData recording_stuck) 2))
       = [(7, 0, [])]
   \<and> \<not> record_data (write_data recording_stuck (fifoData recording_stuck) 2)"
  by (simp add: write_data_def w32_def MAX_FILE_SIZE_def Let_def open_output_file_def
        close_output_file_def OpenNewFile_def CloseFile_def Write_def IsOpen_def
        GetFilesize_def recording_stuck_def recording_def near_ceiling_def new_sink_def
        Poll_def)



section \<open>Buffer writes and event headers\<close>

lemma store_words_apply:
  "store_words buf pos f n j = (if pos \<le> j \<and> j < pos + n then f (j - pos) else buf j)"
proof (induction n)
  case 0
  then show ?case by (auto simp: store_words_def)
next
  case (Suc n)
  have "store_words buf pos f (Suc n) = (store_words buf pos f n)(pos + n := f n)"
    by (simp add: store_words_def)
  then show ?case using Suc by (auto simp: less_Suc_eq)
qed

lemma load_module_apply:
  "load_module buf dw m partial d nW j =
     (if dw + 2 + length partial \<le> j \<and> j < dw + 2 + length partial + nW
      then d (j - (dw + 2 + length partial))
      else if dw + 2 \<le> j \<and> j < dw + 2 + length partial then partial ! (j - (dw + 2))
      else if j = dw + 1 then of_nat m
      else buf j)"
  by (simp add: load_module_def store_words_apply)

lemma load_module_data:
  assumes b: "b = dw + 2"
  shows "map (load_module buf dw m partial d nW) [b ..< b + length partial + nW]
           = partial @ map d [0 ..< nW]"
proof (rule nth_equalityI)
  show "length (map (load_module buf dw m partial d nW) [b ..< b + length partial + nW])
         = length (partial @ map d [0 ..< nW])" by simp
next
  fix i
  assume "i < length (map (load_module buf dw m partial d nW)
                         [b ..< b + length partial + nW])"
  then have i: "i < length partial + nW" by simp
  then have "map (load_module buf dw m partial d nW) [b ..< b + length partial + nW] ! i
               = load_module buf dw m partial d nW (b + i)" by simp
  also have "\<dots> = (partial @ map d [0 ..< nW]) ! i"
    using i unfolding b by (auto simp: load_module_apply nth_append)
  finally show "map (load_module buf dw m partial d nW) [b ..< b + length partial + nW] ! i
             = (partial @ map d [0 ..< nW]) ! i" .
qed

lemma eventSize_of_bound: "eventSize_of w < 16384"
proof -
  have e: "eventSize_of w = unat (drop_bit 17 w AND 16383)"
    by (simp add: eventSize_of_def)
  have "drop_bit 17 w AND 16383 \<le> 16383" by (rule word_and_le1)
  then have "unat (drop_bit 17 w AND 16383) \<le> unat (16383 :: word_t)"
    by (simp only: word_le_nat_alt)
  then show ?thesis unfolding e by simp
qed

lemma chanRead_bound: "chanRead w \<le> 15"
proof -
  have "w AND 0xF \<le> 0xF" by (rule word_and_le1)
  then show ?thesis by (simp add: chanRead_def word_le_nat_alt)
qed



section \<open>The parsing loop\<close>

lemma parse_events_stop:
  "\<not> p < lim \<Longrightarrow> parse_events buf m slot lim p es calls = (p, es, calls)"
  by (subst parse_events.simps) simp

lemma parse_events_bad:
  "p < lim \<Longrightarrow>
   slotRead (buf p) \<noteq> slot \<or> chanRead (buf p) > 15 \<or> eventSize_of (buf p) = 0 \<Longrightarrow>
   parse_events buf m slot lim p es calls = (p, eventSize_of (buf p), calls)"
  by (subst parse_events.simps) (auto simp: Let_def)

lemma parse_events_good:
  "p < lim \<Longrightarrow> slotRead (buf p) = slot \<Longrightarrow> eventSize_of (buf p) \<noteq> 0 \<Longrightarrow>
   parse_events buf m slot lim p es calls
     = parse_events buf m slot lim (p + eventSize_of (buf p)) (eventSize_of (buf p))
         (if \<not> virtualChannel (buf p)
          then calls @ [AddEvent m (chanRead (buf p)) (4 * eventSize_of (buf p))] else calls)"
  using chanRead_bound [of "buf p"]
  by (subst parse_events.simps) (simp add: Let_def not_less [symmetric] del: not_less)

lemma parse_events_cases:
  obtains (stop) "\<not> p < lim"
  | (bad) "p < lim" "slotRead (buf p) \<noteq> slot \<or> eventSize_of (buf p) = 0"
  | (good) "p < lim" "slotRead (buf p) = slot" "eventSize_of (buf p) \<noteq> 0"
  by blast

lemma parse_events_mono:
  "p \<le> fst (parse_events buf m slot lim p es calls)"
proof (induction buf m slot lim p es calls rule: parse_events.induct)
  case (1 buf m slot lim p es calls)
  show ?case
  proof (cases rule: parse_events_cases [where p = p and lim = lim and buf = buf and slot = slot])
    case stop
    then show ?thesis by (simp add: parse_events_stop)
  next
    case bad
    then show ?thesis by (simp add: parse_events_bad)
  next
    case good
    have c: "\<not> chanRead (buf p) > 15" using chanRead_bound [of "buf p"] by simp
    from "1.IH" [OF good(1) refl refl _ c good(3)] good(2)
    have "p + eventSize_of (buf p)
            \<le> fst (parse_events buf m slot lim (p + eventSize_of (buf p)) (eventSize_of (buf p))
                 (if \<not> virtualChannel (buf p)
                  then calls @ [AddEvent m (chanRead (buf p)) (4 * eventSize_of (buf p))]
                  else calls))"
      by simp
    then show ?thesis using good by (simp add: parse_events_good)
  qed
qed

lemma parse_events_short:
  "parse_events buf m slot lim p es calls = (pw, es', calls') \<Longrightarrow> pw < lim \<Longrightarrow>
   slotRead (buf pw) \<noteq> slot \<or> eventSize_of (buf pw) = 0"
proof (induction buf m slot lim p es calls rule: parse_events.induct)
  case (1 buf m slot lim p es calls)
  show ?case
  proof (cases rule: parse_events_cases [where p = p and lim = lim and buf = buf and slot = slot])
    case stop
    with "1.prems" show ?thesis by (simp add: parse_events_stop)
  next
    case bad
    with "1.prems" show ?thesis by (auto simp: parse_events_bad)
  next
    case good
    have c: "\<not> chanRead (buf p) > 15" using chanRead_bound [of "buf p"] by simp
    from "1.prems"(1) good
    have "parse_events buf m slot lim (p + eventSize_of (buf p)) (eventSize_of (buf p))
            (if \<not> virtualChannel (buf p)
             then calls @ [AddEvent m (chanRead (buf p)) (4 * eventSize_of (buf p))]
             else calls) = (pw, es', calls')"
      by (simp add: parse_events_good)
    from "1.IH" [OF good(1) refl refl _ c good(3) this "1.prems"(2)] good(2)
    show ?thesis by simp
  qed
qed

lemma parse_events_long:
  "parse_events buf m slot lim p es calls = (pw, es', calls') \<Longrightarrow> lim < pw \<Longrightarrow> p \<le> lim \<Longrightarrow>
   es' = eventSize_of (buf (pw - es')) \<and> 0 < es' \<and> p + es' \<le> pw \<and> pw - es' < lim"
proof (induction buf m slot lim p es calls rule: parse_events.induct)
  case (1 buf m slot lim p es calls)
  show ?case
  proof (cases rule: parse_events_cases [where p = p and lim = lim and buf = buf and slot = slot])
    case stop
    with "1.prems" show ?thesis by (simp add: parse_events_stop)
  next
    case bad
    with "1.prems" show ?thesis by (auto simp: parse_events_bad)
  next
    case good
    let ?e = "eventSize_of (buf p)"
    let ?calls = "if \<not> virtualChannel (buf p)
                  then calls @ [AddEvent m (chanRead (buf p)) (4 * ?e)] else calls"
    have c: "\<not> chanRead (buf p) > 15" using chanRead_bound [of "buf p"] by simp
    from "1.prems"(1) good
    have rec: "parse_events buf m slot lim (p + ?e) ?e ?calls = (pw, es', calls')"
      by (simp add: parse_events_good)
    show ?thesis
    proof (cases "p + ?e \<le> lim")
      case True
      from "1.IH" [OF good(1) refl refl _ c good(3) rec "1.prems"(2) True] good(2)
      show ?thesis by simp
    next
      case False
      then have "parse_events buf m slot lim (p + ?e) ?e ?calls = (p + ?e, ?e, ?calls)"
        by (simp add: parse_events_stop)
      with rec have "pw = p + ?e" "es' = ?e" by simp_all
      with good show ?thesis by simp
    qed
  qed
qed

text \<open>Walking over well-formed events up to a header that violates an invariant.\<close>

lemma parse_events_walk:
  assumes "\<forall>i < length (concat evs @ h # rest). buf (p + i) = (concat evs @ h # rest) ! i"
    and "lim = p + length (concat evs @ h # rest)"
    and "\<forall>ev \<in> set evs. ev \<noteq> [] \<and> slotRead (hd ev) = slot \<and> eventSize_of (hd ev) = length ev"
    and "slotRead h \<noteq> slot \<or> chanRead h > 15 \<or> eventSize_of h = 0"
  shows "fst (parse_events buf m slot lim p es calls) = p + length (concat evs)"
  using assms
proof (induction evs arbitrary: p es calls)
  case Nil
  from Nil.prems(1) [rule_format, of 0] have "buf p = h" by simp
  moreover have "p < lim" using Nil.prems(2) by simp
  ultimately show ?case using Nil.prems(4) by (simp add: parse_events_bad)
next
  case (Cons ev evs)
  let ?data = "concat (ev # evs) @ h # rest"
  let ?calls = "if \<not> virtualChannel (buf p)
                then calls @ [AddEvent m (chanRead (buf p)) (4 * length ev)] else calls"
  from Cons.prems(3) have ev: "ev \<noteq> []" "slotRead (hd ev) = slot" "eventSize_of (hd ev) = length ev"
    by simp_all
  from Cons.prems(3) have good: "\<forall>ev \<in> set evs. ev \<noteq> [] \<and> slotRead (hd ev) = slot
                                   \<and> eventSize_of (hd ev) = length ev"
    by simp
  from Cons.prems(1) [rule_format, of 0] have "buf p = ?data ! 0" by simp
  also have "\<dots> = hd ev" using ev(1) by (cases ev) simp_all
  finally have hd: "buf p = hd ev" .
  have lt: "p < lim" using Cons.prems(2) by simp
  have ne: "eventSize_of (buf p) \<noteq> 0" using hd ev by simp
  have sl: "slotRead (buf p) = slot" using hd ev by simp
  have step: "parse_events buf m slot lim p es calls
      = parse_events buf m slot lim (p + length ev) (length ev) ?calls"
    using parse_events_good [where buf = buf and p = p and lim = lim and slot = slot
            and m = m and es = es and calls = calls, OF lt sl ne] hd ev(3) by simp
  have shift: "\<forall>i < length (concat evs @ h # rest).
                 buf (p + length ev + i) = (concat evs @ h # rest) ! i"
  proof (intro allI impI)
    fix i assume "i < length (concat evs @ h # rest)"
    then have "length ev + i < length ?data" by simp
    from Cons.prems(1) [rule_format, OF this]
    have "buf (p + (length ev + i)) = ?data ! (length ev + i)" .
    then show "buf (p + length ev + i) = (concat evs @ h # rest) ! i"
      by (simp add: nth_append add.assoc)
  qed
  have lim: "lim = p + length ev + length (concat evs @ h # rest)"
    using Cons.prems(2) by simp
  have "fst (parse_events buf m slot lim (p + length ev) (length ev) ?calls)
          = p + length ev + length (concat evs)"
    by (rule Cons.IH [OF shift lim good Cons.prems(4)])
  then show ?case unfolding step by simp
qed



section \<open>One module\<close>

lemma w32_id: "x < 2 ^ 32 \<Longrightarrow> w32 x = x"
  by (simp add: w32_def)

lemma sub_mod_id:
  fixes a b M :: nat
  assumes "b \<le> a" and "a < M"
  shows "(a + M - b mod M) mod M = a - b"
proof -
  have "b mod M = b" using assms by simp
  moreover have "a + M - b = (a - b) + M" using assms by simp
  moreover have "((a - b) + M) mod M = (a - b) mod M" by (rule mod_add_self2)
  moreover have "(a - b) mod M = a - b" using assms by simp
  ultimately show ?thesis by (simp only:)
qed

lemma wsub32_id: "b \<le> a \<Longrightarrow> a < 2 ^ 32 \<Longrightarrow> wsub32 a b = a - b"
  unfolding wsub32_def by (rule sub_mod_id)

lemma read_module_skip:
  "nW < MIN_FIFO_READ P \<Longrightarrow>
   read_module g P st nW m dw
     = Inr (st\<lparr>fifoData := (fifoData st)(dw := 2, dw + 1 := of_nat m),
               overrun := (overrun st \<or> past_end P st (dw + 2))\<rparr>, dw + 2)"
  by (simp add: read_module_def)

lemma read_module_full:
  "MIN_FIFO_READ P \<le> nW \<Longrightarrow> EXTERNAL_FIFO_LENGTH P \<le> nW \<Longrightarrow>
   read_module g P st nW m dw = Inl (st\<lparr>had_error := True, stop_acq := True\<rparr>)"
  by (simp add: read_module_def)

lemma read_module_read:
  assumes "MIN_FIFO_READ P \<le> nW" and "nW < EXTERNAL_FIFO_LENGTH P"
    and "ReadFIFOWords g m = Some d"
    and nowrap: "nW + length (partialEvent st m) < 2 ^ 32"
    and pr: "parse_events (load_module (fifoData st) dw m (partialEvent st m) d nW) m
               (GetSlotNumber g m) (dw + 2 + (nW + length (partialEvent st m))) (dw + 2) 0 []
             = (pw, es, calls)"
  shows "read_module g P st nW m dw =
           finish_module P
             (st\<lparr>fifoData := load_module (fifoData st) dw m (partialEvent st m) d nW,
                 partialEvent := (partialEvent st)(m := []),
                 overrun := (overrun st
                             \<or> past_end P st (dw + 2 + length (partialEvent st m) + nW))\<rparr>)
             (load_module (fifoData st) dw m (partialEvent st m) d nW) m (dw + 2)
             (nW + length (partialEvent st m)) pw es calls"
proof -
  have "read_module g P st nW m dw =
          (case parse_events (load_module (fifoData st) dw m (partialEvent st m) d nW) m
                  (GetSlotNumber g m) (dw + 2 + (nW + length (partialEvent st m))) (dw + 2) 0 []
           of (parseWords, eventSize, calls) \<Rightarrow>
             finish_module P
               (st\<lparr>fifoData := load_module (fifoData st) dw m (partialEvent st m) d nW,
                   partialEvent := (partialEvent st)(m := []),
                   overrun := (overrun st
                               \<or> past_end P st (dw + 2 + length (partialEvent st m) + nW))\<rparr>)
               (load_module (fifoData st) dw m (partialEvent st m) d nW) m (dw + 2)
               (nW + length (partialEvent st m)) parseWords eventSize calls)"
    using assms(1-3) unfolding read_module_def Let_def w32_id [OF nowrap]
    by (simp add: not_less [symmetric] del: not_less)
  then show ?thesis unfolding pr by simp
qed

lemma finish_module_exact:
  "n1 + 2 < 2 ^ 32 \<Longrightarrow>
   finish_module P st1 buf m (dw + 2) n1 (dw + 2 + n1) es calls
     = Inr (st1\<lparr>stats := stats st1 @ calls,
                fifoData := buf(dw := of_nat (n1 + 2))\<rparr>, dw + 2 + n1)"
  by (simp add: finish_module_def w32_id)

lemma finish_module_corrupt:
  "pw < dw + 2 + n1 \<Longrightarrow>
   finish_module P st1 buf m (dw + 2) n1 pw es calls
     = Inl (st1\<lparr>stats := stats st1 @ calls,
                console := (if \<not> is_quiet st1
                            then console st1 @ [HexDump (map (\<lambda>i. buf (dw + 2 + i)) [0 ..< 100])]
                            else console st1),
                overrun := (overrun st1 \<or> (\<not> is_quiet st1 \<and> past_end P st1 (dw + 2 + 100))),
                stop_acq := True, had_error := True\<rparr>)"
  by (simp add: finish_module_def past_end_def)

lemma finish_module_straddle:
  assumes long: "dw + 2 + n1 < pw" and es: "0 < es" "dw + 2 + es \<le> pw" "pw - es < dw + 2 + n1"
    and n1: "n1 + 2 < 2 ^ 32" and es32: "es < 2 ^ 32"
  shows "finish_module P st1 buf m (dw + 2) n1 pw es calls
     = Inr (st1\<lparr>stats := stats st1 @ calls,
                partialEvent := (partialEvent st1)
                   (m := partialEvent st1 m @ map buf [pw - es ..< dw + 2 + n1]),
                fifoData := buf(dw := of_nat (pw - es - dw))\<rparr>, pw - es)"
proof -
  let ?lim = "dw + 2 + n1"
  let ?missing = "pw - (dw + 2) - n1"
  have miss_lt: "?missing < es" using es long by linarith
  have m32: "w32 ?missing = ?missing"
    using miss_lt es32 by (intro w32_id) (rule less_trans)
  have psz: "wsub32 es ?missing = es - ?missing"
    using miss_lt es32 by (intro wsub32_id) simp_all
  let ?ps = "es - ?missing"
  have ps_le: "?ps \<le> n1" using es long by linarith
  have n1': "n1 < 2 ^ 32" using n1 by simp
  have n2: "wsub32 n1 ?ps = n1 - ?ps" using ps_le n1' by (rule wsub32_id)
  have len: "w32 (n1 - ?ps + 2) = pw - es - dw"
  proof -
    have e: "n1 - ?ps + 2 = pw - es - dw" using es long by linarith
    have "n1 - ?ps + 2 \<le> n1 + 2" by simp
    then have "n1 - ?ps + 2 < 2 ^ 32" using n1 by (rule le_less_trans)
    then show ?thesis unfolding e [symmetric] by (rule w32_id)
  qed
  have saved: "map (\<lambda>i. buf (pw - es + i)) [0 ..< ?ps] = map buf [pw - es ..< ?lim]"
  proof -
    have ps_eq: "?lim = pw - es + ?ps" using es long by linarith
    have "[pw - es ..< pw - es + ?ps] = map (\<lambda>i. i + (pw - es)) [0 ..< ?ps]"
      by (simp only: map_add_upt add.commute)
    then show ?thesis unfolding ps_eq by (simp add: comp_def add.commute)
  qed
  have cur: "dw + 2 + (n1 - ?ps) = pw - es" using es long by linarith
  show ?thesis
    using long
    unfolding finish_module_def Let_def m32 psz n2 len saved cur
    by simp
qed



section \<open>The segment of a module\<close>

lemma unat_of_nat32: "x < 2 ^ 32 \<Longrightarrow> unat (of_nat x :: word_t) = x"
  by (simp add: unat_of_nat)

lemma read_module_Inr_segment:
  assumes res: "read_module g P st nW m dw = Inr (s, dw')"
    and fifo: "EXTERNAL_FIFO_LENGTH P + 16386 \<le> 2 ^ 32"
    and inv: "\<forall>k. length (partialEvent st k) < 16384"
  shows "dw + 2 \<le> dw' \<and> unat (fifoData s dw) = dw' - dw \<and> fifoData s (dw + 1) = of_nat m
         \<and> (\<forall>j < dw. fifoData s j = fifoData st j)
         \<and> (nW < MIN_FIFO_READ P \<longrightarrow> dw' = dw + 2)
         \<and> (\<forall>k. length (partialEvent s k) < 16384)
         \<and> console s = console st
         \<and> n_cards s = n_cards st
         \<and> (overrun st \<longrightarrow> overrun s)
         \<and> (\<not> overrun s \<longrightarrow> dw' \<le> (EXTERNAL_FIFO_LENGTH P + 2) * n_cards st)
         \<and> (\<forall>j. j \<noteq> m \<longrightarrow> partialEvent s j = partialEvent st j)
         \<and> dw' \<le> dw + 2 + nW + length (partialEvent st m)
         \<and> (overrun s \<longrightarrow>
               overrun st \<or> past_end P st (dw + 2 + nW + length (partialEvent st m)))"
proof (cases "nW < MIN_FIFO_READ P")
  case True
  let ?S = "st\<lparr>fifoData := (fifoData st)(dw := 2, dw + 1 := of_nat m),
                  overrun := (overrun st \<or> past_end P st (dw + 2))\<rparr>"
  from True res have "(Inr (?S, dw + 2) :: poll + poll \<times> nat) = Inr (s, dw')"
    by (simp only: read_module_skip)
  then have both: "?S = s \<and> dw + 2 = dw'" by blast
  have s: "s = ?S" using both by (rule conjunct1 [THEN sym])
  have d: "dw' = dw + 2" using both by (rule conjunct2 [THEN sym])
  show ?thesis using inv unfolding s d by (simp add: past_end_def)
next
  case False
  then have min: "MIN_FIFO_READ P \<le> nW" by simp
  have lt: "nW < EXTERNAL_FIFO_LENGTH P"
  proof (rule ccontr)
    assume "\<not> nW < EXTERNAL_FIFO_LENGTH P"
    with min res show False by (simp add: read_module_full)
  qed
  obtain d where rd: "ReadFIFOWords g m = Some d"
  proof (cases "ReadFIFOWords g m")
    case None
    with min lt res show ?thesis by (simp add: read_module_def Let_def)
  next
    case (Some d)
    then show ?thesis by (rule that)
  qed
  let ?pe = "partialEvent st m"
  let ?B = "load_module (fifoData st) dw m ?pe d nW"
  let ?n1 = "nW + length ?pe"
  let ?st1 = "st\<lparr>fifoData := ?B, partialEvent := (partialEvent st)(m := []),
                   overrun := (overrun st \<or> past_end P st (dw + 2 + length ?pe + nW))\<rparr>"
  have pe: "length ?pe < 16384" using inv by simp
  have n1: "?n1 + 2 < 2 ^ 32" using lt pe fifo by linarith
  then have nowrap: "?n1 < 2 ^ 32" by simp
  obtain pw es calls where
    pr: "parse_events ?B m (GetSlotNumber g m) (dw + 2 + ?n1) (dw + 2) 0 [] = (pw, es, calls)"
    by (cases "parse_events ?B m (GetSlotNumber g m) (dw + 2 + ?n1) (dw + 2) 0 []")
  have fin: "finish_module P ?st1 ?B m (dw + 2) ?n1 pw es calls = Inr (s, dw')"
    using read_module_read [OF min lt rd nowrap pr] res by simp
  have Bm: "?B (dw + 1) = of_nat m" by (simp add: load_module_apply)
  have Bl: "\<forall>j < dw. ?B j = fifoData st j" by (simp add: load_module_apply)
  consider (straddle) "dw + 2 + ?n1 < pw" | (corrupt) "pw < dw + 2 + ?n1"
    | (exact) "pw = dw + 2 + ?n1" by linarith
  then show ?thesis
  proof cases
    case straddle
    from parse_events_long [OF pr straddle]
    have es: "es = eventSize_of (?B (pw - es))" "0 < es" "dw + 2 + es \<le> pw"
      "pw - es < dw + 2 + ?n1" by simp_all
    have es16: "es < 16384" using es(1) eventSize_of_bound [of "?B (pw - es)"] by simp
    then have es32: "es < 2 ^ 32" by simp
    let ?S = "?st1\<lparr>stats := stats ?st1 @ calls,
                        partialEvent := (partialEvent ?st1)
                           (m := partialEvent ?st1 m @ map ?B [pw - es ..< dw + 2 + ?n1]),
                        fifoData := ?B(dw := of_nat (pw - es - dw))\<rparr>"
    have "finish_module P ?st1 ?B m (dw + 2) ?n1 pw es calls = Inr (?S, pw - es)"
      by (rule finish_module_straddle [OF straddle es(2,3,4) n1 es32])
    with fin have "(Inr (?S, pw - es) :: poll + poll \<times> nat) = Inr (s, dw')" by (simp only:)
    then have both: "?S = s \<and> pw - es = dw'" by blast
    have s: "s = ?S" using both by (rule conjunct1 [THEN sym])
    have d: "dw' = pw - es" using both by (rule conjunct2 [THEN sym])
    have small: "pw - es - dw < 2 ^ 32" using es n1 straddle by linarith
    have plen: "dw + 2 + ?n1 - (pw - es) < 16384" using es es16 straddle by linarith
    have c1: "dw + 2 \<le> dw'" using es d by linarith
    have u: "unat (of_nat (pw - es - dw) :: word_t) = pw - es - dw"
      by (rule unat_of_nat32 [OF small])
    have c2: "unat (fifoData s dw) = dw' - dw" unfolding s d using u by simp
    have c3: "fifoData s (dw + 1) = of_nat m" unfolding s using Bm by simp
    have c4: "\<forall>j < dw. fifoData s j = fifoData st j" unfolding s using Bl by simp
    have c5: "nW < MIN_FIFO_READ P \<longrightarrow> dw' = dw + 2" using min by simp
    define tail where "tail = map ?B [pw - es ..< dw + 2 + ?n1]"
    have tl: "length tail < 16384" unfolding tail_def using plen by (simp only: length_map length_upt)
    have pm: "partialEvent s = (partialEvent st)(m := tail)" unfolding s tail_def by simp
    have c6: "\<forall>k. length (partialEvent s k) < 16384" unfolding pm using inv tl by simp
    have c7: "console s = console st" unfolding s by simp
    have c8: "n_cards s = n_cards st" unfolding s by simp
    have ov: "overrun s = (overrun st \<or> past_end P st (dw + 2 + length ?pe + nW))"
      unfolding s by simp
    have c9: "overrun st \<longrightarrow> overrun s" unfolding ov by simp
    have c10: "\<not> overrun s \<longrightarrow> dw' \<le> (EXTERNAL_FIFO_LENGTH P + 2) * n_cards st"
      unfolding ov d past_end_def using es(4) by linarith
    have c11: "\<forall>j. j \<noteq> m \<longrightarrow> partialEvent s j = partialEvent st j" unfolding pm by simp
    have c12: "dw' \<le> dw + 2 + nW + length ?pe" unfolding d using es(4) by linarith
    have c13: "overrun s \<longrightarrow> overrun st \<or> past_end P st (dw + 2 + nW + length ?pe)"
    proof -
      have eq: "dw + 2 + length ?pe + nW = dw + 2 + nW + length ?pe" by simp
      show ?thesis unfolding ov eq by simp
    qed
    from c1 c2 c3 c4 c5 c6 c7 c8 c9 c10 c11 c12 c13 show ?thesis by blast
  next
    case corrupt
    have "\<exists>x. finish_module P ?st1 ?B m (dw + 2) ?n1 pw es calls = Inl x"
      by (simp only: finish_module_corrupt [OF corrupt]) blast
    with fin show ?thesis by (simp only:) blast
  next
    case exact
    let ?S = "?st1\<lparr>stats := stats ?st1 @ calls, fifoData := ?B(dw := of_nat (?n1 + 2))\<rparr>"
    have "finish_module P ?st1 ?B m (dw + 2) ?n1 (dw + 2 + ?n1) es calls
            = Inr (?S, dw + 2 + ?n1)"
      by (rule finish_module_exact [OF n1])
    with fin exact have "(Inr (?S, dw + 2 + ?n1) :: poll + poll \<times> nat) = Inr (s, dw')"
      by (simp only:)
    then have both: "?S = s \<and> dw + 2 + ?n1 = dw'" by blast
    have s: "s = ?S" using both by (rule conjunct1 [THEN sym])
    have d: "dw' = dw + 2 + ?n1" using both by (rule conjunct2 [THEN sym])
    have c1: "dw + 2 \<le> dw'" using d by linarith
    have u: "unat (of_nat (?n1 + 2) :: word_t) = ?n1 + 2"
      by (rule unat_of_nat32 [OF n1])
    have c2: "unat (fifoData s dw) = dw' - dw" unfolding s d using u by simp
    have c3: "fifoData s (dw + 1) = of_nat m" unfolding s using Bm by simp
    have c4: "\<forall>j < dw. fifoData s j = fifoData st j" unfolding s using Bl by simp
    have c5: "nW < MIN_FIFO_READ P \<longrightarrow> dw' = dw + 2" using min by simp
    have c6: "\<forall>k. length (partialEvent s k) < 16384" unfolding s using inv by simp
    have c7: "console s = console st" unfolding s by simp
    have c8: "n_cards s = n_cards st" unfolding s by simp
    have ov: "overrun s = (overrun st \<or> past_end P st (dw + 2 + length ?pe + nW))"
      unfolding s by simp
    have c9: "overrun st \<longrightarrow> overrun s" unfolding ov by simp
    have c10: "\<not> overrun s \<longrightarrow> dw' \<le> (EXTERNAL_FIFO_LENGTH P + 2) * n_cards st"
      unfolding ov d past_end_def by linarith
    have c11: "\<forall>j. j \<noteq> m \<longrightarrow> partialEvent s j = partialEvent st j" unfolding s by simp
    have c12: "dw' \<le> dw + 2 + nW + length ?pe" unfolding d by linarith
    have c13: "overrun s \<longrightarrow> overrun st \<or> past_end P st (dw + 2 + nW + length ?pe)"
    proof -
      have eq: "dw + 2 + length ?pe + nW = dw + 2 + nW + length ?pe" by simp
      show ?thesis unfolding ov eq by simp
    qed
    from c1 c2 c3 c4 c5 c6 c7 c8 c9 c10 c11 c12 c13 show ?thesis by blast
  qed
qed



section \<open>The spill\<close>




text \<open>
  A pass stays within the array when, for every module, the depth found and the words
  saved for it together do not exceed \<open>EXTERNAL_FIFO_LENGTH\<close>.
\<close>

lemma module_loop_in_bounds:
  assumes fifo: "EXTERNAL_FIFO_LENGTH P + 16386 \<le> 2 ^ 32"
  shows "module_loop g P W st dw [k ..< n] = Inr (s, dw') \<Longrightarrow>
         \<forall>j. length (partialEvent st j) < 16384 \<Longrightarrow>
         k \<le> n \<Longrightarrow> n \<le> n_cards st \<Longrightarrow> \<not> overrun st \<Longrightarrow>
         dw \<le> (EXTERNAL_FIFO_LENGTH P + 2) * k \<Longrightarrow>
         \<forall>j. k \<le> j \<and> j < n \<longrightarrow> W ! j + length (partialEvent st j) \<le> EXTERNAL_FIFO_LENGTH P \<Longrightarrow>
         \<not> overrun s \<and> dw' \<le> (EXTERNAL_FIFO_LENGTH P + 2) * n"
proof (induction "n - k" arbitrary: k st dw)
  case 0
  then have "k = n" by simp
  with "0.prems" show ?case by simp
next
  case (Suc x)
  define c where "c = EXTERNAL_FIFO_LENGTH P + 2"
  have kn: "k < n" using Suc.hyps(2) by simp
  have upt: "[k ..< n] = k # [Suc k ..< n]" using kn by (rule upt_conv_Cons)
  obtain s1 dw1 where rm: "read_module g P st (W ! k) k dw = Inr (s1, dw1)"
    and rest: "module_loop g P W s1 dw1 [Suc k ..< n] = Inr (s, dw')"
  proof (cases "read_module g P st (W ! k) k dw")
    case (Inl x)
    with Suc.prems(1) show ?thesis by (simp add: upt)
  next
    case (Inr p)
    obtain a b where p: "p = (a, b)" by (cases p)
    with Inr Suc.prems(1) show ?thesis by (intro that [of a b]) (simp_all add: upt)
  qed
  from read_module_Inr_segment [OF rm fifo Suc.prems(2)]
  have a6: "\<forall>j. length (partialEvent s1 j) < 16384"
    and a8: "n_cards s1 = n_cards st"
    and a11: "\<forall>j. j \<noteq> k \<longrightarrow> partialEvent s1 j = partialEvent st j"
    and a12: "dw1 \<le> dw + 2 + W ! k + length (partialEvent st k)"
    and a13: "overrun s1 \<longrightarrow>
                overrun st \<or> past_end P st (dw + 2 + W ! k + length (partialEvent st k))"
    by blast+
  have fitk: "W ! k + length (partialEvent st k) \<le> EXTERNAL_FIFO_LENGTH P"
    using Suc.prems(7) kn by simp
  have top: "dw + 2 + W ! k + length (partialEvent st k) \<le> c * Suc k"
  proof -
    have "dw + 2 + W ! k + length (partialEvent st k) \<le> c * k + c"
      using Suc.prems(6) fitk unfolding c_def by linarith
    then show ?thesis by simp
  qed
  have "c * Suc k \<le> c * n" using kn by (intro mult_le_mono2) simp
  also have "c * n \<le> c * n_cards st" using Suc.prems(4) by (rule mult_le_mono2)
  finally have "c * Suc k \<le> c * n_cards st" .
  with top have "\<not> past_end P st (dw + 2 + W ! k + length (partialEvent st k))"
    unfolding past_end_def c_def by linarith
  with a13 Suc.prems(5) have o1: "\<not> overrun s1" by blast
  have d1: "dw1 \<le> (EXTERNAL_FIFO_LENGTH P + 2) * Suc k"
    using a12 top unfolding c_def by (rule le_trans)
  have x: "x = n - Suc k" using Suc.hyps(2) by simp
  have k1: "Suc k \<le> n" using kn by simp
  have n1: "n \<le> n_cards s1" using Suc.prems(4) a8 by simp
  have fit1: "\<forall>j. Suc k \<le> j \<and> j < n
                \<longrightarrow> W ! j + length (partialEvent s1 j) \<le> EXTERNAL_FIFO_LENGTH P"
    using Suc.prems(7) a11 by simp
  show ?case by (rule Suc.hyps(1) [OF x rest a6 k1 n1 o1 d1 fit1])
qed




section \<open>Partial events\<close>

lemma map_upd_below:
  "dw < a \<Longrightarrow> map (f(dw := v)) [a ..< b] = map f [a ..< b]"
  by simp

text \<open>
  C1, as amended: module \<open>m\<close> is read in a pass (its depth \<open>nW\<close> is at least
  \<open>MIN_FIFO_READ\<close> and below \<open>EXTERNAL_FIFO_LENGTH\<close>, the FIFO read succeeds, and the data
  fit in the array). In the buffer the pass leaves, the words saved from an earlier
  read of the module stand right behind the module number, and the \<open>nW\<close> new words
  behind them. If the parse of these words ends behind the end of the segment
  (\<open>lim < pw\<close>), the last header, at \<open>pw - es\<close>, promised \<open>es\<close> words of which
  \<open>pw - lim\<close> are missing: the \<open>es - (pw - lim)\<close> words from that header to the end of the
  segment become the new saved partial event of \<open>m\<close> (the partial events of the other
  modules are untouched), the cursor moves on by the word count reduced by that
  number, and the length word is that reduced count plus 2. If the parse does not
  pass the end of the segment, the saved partial event of \<open>m\<close> is left empty. In a pass
  in which the depth of \<open>m\<close> is below \<open>MIN_FIFO_READ\<close> the module contributes the two
  words \<open>[2, m]\<close>, and its saved partial event is neither written nor cleared.
\<close>

theorem partial_event_saved_and_restored:
  fixes g P st nW m dw d
  defines "pe \<equiv> partialEvent st m"
    and "lim \<equiv> dw + 2 + (nW + length (partialEvent st m))"
  assumes min: "MIN_FIFO_READ P \<le> nW" and lt: "nW < EXTERNAL_FIFO_LENGTH P"
    and rd: "ReadFIFOWords g m = Some d"
    and n1: "nW + length (partialEvent st m) + 2 < 2 ^ 32"
    and cap: "dw + 2 + length (partialEvent st m) + nW
                \<le> (EXTERNAL_FIFO_LENGTH P + 2) * n_cards st"
    and pr: "parse_events (load_module (fifoData st) dw m (partialEvent st m) d nW) m
               (GetSlotNumber g m) lim (dw + 2) 0 [] = (pw, es, calls)"
  shows "(lim < pw \<longrightarrow>
            (\<exists>s. read_module g P st nW m dw = Inr (s, pw - es)
                \<and> fifoData s (dw + 1) = of_nat m
                \<and> map (fifoData s) [dw + 2 ..< dw + 2 + length pe + nW] = pe @ map d [0 ..< nW]
                \<and> es = eventSize_of (fifoData s (pw - es)) \<and> dw + 2 \<le> pw - es \<and> pw - es < lim
                \<and> partialEvent s m = map (fifoData s) [pw - es ..< lim]
                \<and> length (partialEvent s m) = es - (pw - lim)
                \<and> pw - es = dw + 2 + (nW + length pe - (es - (pw - lim)))
                \<and> unat (fifoData s dw) = nW + length pe - (es - (pw - lim)) + 2
                \<and> (\<forall>k. k \<noteq> m \<longrightarrow> partialEvent s k = partialEvent st k)
                \<and> overrun s = overrun st))
       \<and> (pw \<le> lim \<longrightarrow>
            (\<exists>s. (read_module g P st nW m dw = Inr (s, pw) \<or> read_module g P st nW m dw = Inl s)
                \<and> fifoData s (dw + 1) = of_nat m
                \<and> map (fifoData s) [dw + 2 ..< dw + 2 + length pe + nW] = pe @ map d [0 ..< nW]
                \<and> partialEvent s m = []))
       \<and> (\<forall>k < MIN_FIFO_READ P.
            \<exists>s. read_module g P st k m dw = Inr (s, dw + 2)
                \<and> fifoData s dw = 2 \<and> fifoData s (dw + 1) = of_nat m
                \<and> partialEvent s = partialEvent st)"
proof (intro conjI impI allI)
  define B where "B = load_module (fifoData st) dw m (partialEvent st m) d nW"
  let ?n1 = "nW + length (partialEvent st m)"
  let ?top = "dw + 2 + length (partialEvent st m) + nW"
  let ?st1 = "st\<lparr>fifoData := B, partialEvent := (partialEvent st)(m := []),
                   overrun := (overrun st \<or> past_end P st ?top)\<rparr>"
  have nowrap: "?n1 < 2 ^ 32" using n1 by simp
  have pr': "parse_events B m (GetSlotNumber g m) lim (dw + 2) 0 [] = (pw, es, calls)"
    using pr unfolding B_def .
  have rm: "read_module g P st nW m dw = finish_module P ?st1 B m (dw + 2) ?n1 pw es calls"
    unfolding B_def
    by (rule read_module_read [OF min lt rd nowrap pr [unfolded lim_def]])
  have inside: "\<not> past_end P st ?top" using cap by (simp add: past_end_def)
  have Bm: "B (dw + 1) = of_nat m" by (simp add: B_def load_module_apply)
  have Bd: "map B [dw + 2 ..< dw + 2 + length pe + nW] = pe @ map d [0 ..< nW]"
    unfolding B_def pe_def by (rule load_module_data) simp
  have upd_m: "(B(dw := v)) (dw + 1) = of_nat m" for v using Bm by simp
  have upd_d: "map (B(dw := v)) [dw + 2 ..< dw + 2 + length pe + nW] = pe @ map d [0 ..< nW]"
    for v
  proof -
    have "map (B(dw := v)) [dw + 2 ..< dw + 2 + length pe + nW]
            = map B [dw + 2 ..< dw + 2 + length pe + nW]"
      by (rule map_upd_below) simp
    then show ?thesis using Bd by (simp only:)
  qed
  {
    assume long: "lim < pw"
    then have long': "dw + 2 + ?n1 < pw" by (simp add: lim_def)
    from parse_events_long [OF pr' long]
    have es: "es = eventSize_of (B (pw - es))" "0 < es" "dw + 2 + es \<le> pw" "pw - es < lim"
      by (simp_all add: lim_def)
    have es16: "es < 16384" using es(1) eventSize_of_bound [of "B (pw - es)"] by simp
    then have es32: "es < 2 ^ 32" by simp
    define v where "v = (of_nat (pw - es - dw) :: word_t)"
    define tail where "tail = map B [pw - es ..< lim]"
    let ?S = "?st1\<lparr>stats := stats ?st1 @ calls,
                     partialEvent := (partialEvent ?st1)
                        (m := partialEvent ?st1 m @ map B [pw - es ..< dw + 2 + ?n1]),
                     fifoData := B(dw := of_nat (pw - es - dw))\<rparr>"
    have fin: "read_module g P st nW m dw = Inr (?S, pw - es)"
      unfolding rm
      by (rule finish_module_straddle [OF long' es(2,3) es(4) [unfolded lim_def] n1 es32])
    have p0: "dw + 2 \<le> pw - es" using es by linarith
    have fS: "fifoData ?S = B(dw := v)" by (simp add: v_def)
    have r1: "fifoData ?S (dw + 1) = of_nat m" unfolding fS by (rule upd_m)
    have r2: "map (fifoData ?S) [dw + 2 ..< dw + 2 + length pe + nW] = pe @ map d [0 ..< nW]"
      unfolding fS by (rule upd_d)
    have at: "fifoData ?S (pw - es) = B (pw - es)" unfolding fS using p0 by simp
    have e1: "es = eventSize_of (fifoData ?S (pw - es))" unfolding at by (rule es(1))
    have tl: "map (fifoData ?S) [pw - es ..< lim] = tail"
      unfolding fS tail_def using p0 by (intro map_upd_below) simp
    have p1: "partialEvent ?S m = map (fifoData ?S) [pw - es ..< lim]"
      unfolding tl by (simp add: tail_def lim_def)
    have p2: "length (partialEvent ?S m) = es - (pw - lim)"
    proof -
      have "length (partialEvent ?S m) = length tail" using p1 tl by (simp only:)
      also have "\<dots> = lim - (pw - es)" by (simp only: tail_def length_map length_upt)
      also have "\<dots> = es - (pw - lim)" using es long by linarith
      finally show ?thesis .
    qed
    have p3: "pw - es = dw + 2 + (nW + length pe - (es - (pw - lim)))"
      using es long unfolding lim_def pe_def by linarith
    have small: "pw - es - dw < 2 ^ 32" using es n1 long unfolding lim_def by linarith
    have u: "unat v = pw - es - dw"
      unfolding v_def by (rule unat_of_nat32 [OF small])
    have e: "pw - es - dw = nW + length pe - (es - (pw - lim)) + 2"
      using es long unfolding lim_def pe_def by linarith
    have fd: "fifoData ?S dw = v" unfolding fS by simp
    have p4: "unat (fifoData ?S dw) = nW + length pe - (es - (pw - lim)) + 2"
      unfolding fd u by (rule e)
    have p5: "\<forall>k. k \<noteq> m \<longrightarrow> partialEvent ?S k = partialEvent st k" by simp
    have p6: "overrun ?S = overrun st" using inside by simp
    show "\<exists>s. read_module g P st nW m dw = Inr (s, pw - es)
            \<and> fifoData s (dw + 1) = of_nat m
            \<and> map (fifoData s) [dw + 2 ..< dw + 2 + length pe + nW] = pe @ map d [0 ..< nW]
            \<and> es = eventSize_of (fifoData s (pw - es)) \<and> dw + 2 \<le> pw - es \<and> pw - es < lim
            \<and> partialEvent s m = map (fifoData s) [pw - es ..< lim]
            \<and> length (partialEvent s m) = es - (pw - lim)
            \<and> pw - es = dw + 2 + (nW + length pe - (es - (pw - lim)))
            \<and> unat (fifoData s dw) = nW + length pe - (es - (pw - lim)) + 2
            \<and> (\<forall>k. k \<noteq> m \<longrightarrow> partialEvent s k = partialEvent st k)
            \<and> overrun s = overrun st"
      using fin r1 r2 e1 p0 es(4) p1 p2 p3 p4 p5 p6
      by (intro exI [of _ ?S] conjI)
  }
  {
    assume le: "pw \<le> lim"
    show "\<exists>s. (read_module g P st nW m dw = Inr (s, pw) \<or> read_module g P st nW m dw = Inl s)
             \<and> fifoData s (dw + 1) = of_nat m
             \<and> map (fifoData s) [dw + 2 ..< dw + 2 + length pe + nW] = pe @ map d [0 ..< nW]
             \<and> partialEvent s m = []"
    proof (cases "pw = lim")
      case True
      define v where "v = (of_nat (?n1 + 2) :: word_t)"
      let ?S = "?st1\<lparr>stats := stats ?st1 @ calls, fifoData := B(dw := of_nat (?n1 + 2))\<rparr>"
      have "finish_module P ?st1 B m (dw + 2) ?n1 (dw + 2 + ?n1) es calls
              = Inr (?S, dw + 2 + ?n1)"
        by (rule finish_module_exact [OF n1])
      then have a: "read_module g P st nW m dw = Inr (?S, pw)"
        unfolding rm using True by (simp only: lim_def)
      have fS: "fifoData ?S = B(dw := v)" by (simp add: v_def)
      have r1: "fifoData ?S (dw + 1) = of_nat m" unfolding fS by (rule upd_m)
      have r2: "map (fifoData ?S) [dw + 2 ..< dw + 2 + length pe + nW] = pe @ map d [0 ..< nW]"
        unfolding fS by (rule upd_d)
      have r3: "partialEvent ?S m = []" by simp
      from a r1 r2 r3 show ?thesis by (intro exI [of _ ?S] conjI disjI1)
    next
      case False
      with le have c: "pw < dw + 2 + ?n1" by (simp add: lim_def)
      let ?S = "?st1\<lparr>stats := stats ?st1 @ calls,
                console := (if \<not> is_quiet ?st1
                            then console ?st1 @ [HexDump (map (\<lambda>i. B (dw + 2 + i)) [0 ..< 100])]
                            else console ?st1),
                overrun := (overrun ?st1
                            \<or> (\<not> is_quiet ?st1 \<and> past_end P ?st1 (dw + 2 + 100))),
                stop_acq := True, had_error := True\<rparr>"
      have a: "read_module g P st nW m dw = Inl ?S"
        unfolding rm by (rule finish_module_corrupt [OF c])
      have fS: "fifoData ?S = B" by simp
      have r1: "fifoData ?S (dw + 1) = of_nat m" unfolding fS by (rule Bm)
      have r2: "map (fifoData ?S) [dw + 2 ..< dw + 2 + length pe + nW] = pe @ map d [0 ..< nW]"
        unfolding fS by (rule Bd)
      have r3: "partialEvent ?S m = []" by simp
      from a r1 r2 r3 show ?thesis by (intro exI [of _ ?S] conjI disjI2)
    qed
  }
  {
    fix k assume k: "k < MIN_FIFO_READ P"
    let ?S = "st\<lparr>fifoData := (fifoData st)(dw := 2, dw + 1 := of_nat m),
                   overrun := (overrun st \<or> past_end P st (dw + 2))\<rparr>"
    have a: "read_module g P st k m dw = Inr (?S, dw + 2)" using k by (rule read_module_skip)
    have "fifoData ?S dw = 2" "fifoData ?S (dw + 1) = of_nat m"
      "partialEvent ?S = partialEvent st" by simp_all
    with a show "\<exists>s. read_module g P st k m dw = Inr (s, dw + 2)
                \<and> fifoData s dw = 2 \<and> fifoData s (dw + 1) = of_nat m
                \<and> partialEvent s = partialEvent st"
      by (intro exI [of _ ?S] conjI)
  }
qed



lemma straddle_at:
  "i < 10 \<Longrightarrow> load_module buf 0 0 [] (\<lambda>i. straddle_words ! i) 10 (2 + i) = straddle_words ! i"
  by (simp add: load_module_apply)

lemma header_fields:
  "slotRead 0x80021 = 2" "chanRead 0x80021 = 1" "eventSize_of 0x80021 = 4"
  "\<not> virtualChannel 0x80021"
  by (simp_all add: slotRead_def chanRead_def eventSize_of_def virtualChannel_def)

lemma straddle_parse:
  "parse_events (load_module buf 0 0 [] (\<lambda>i. straddle_words ! i) 10) 0 2 12 2 0 []
     = (14, 4, [AddEvent 0 1 16, AddEvent 0 1 16, AddEvent 0 1 16])"
proof -
  let ?B = "load_module buf 0 0 [] (\<lambda>i. straddle_words ! i) 10"
  have b2: "?B 2 = 0x80021" using straddle_at [of 0 buf] by (simp add: straddle_words_def)
  have b6: "?B 6 = 0x80021" using straddle_at [of 4 buf] by (simp add: straddle_words_def)
  have b10: "?B 10 = 0x80021" using straddle_at [of 8 buf] by (simp add: straddle_words_def)
  have "parse_events ?B 0 2 12 2 0 [] = parse_events ?B 0 2 12 6 4 [AddEvent 0 1 16]"
    by (subst parse_events_good) (simp_all add: b2 header_fields)
  also have "\<dots> = parse_events ?B 0 2 12 10 4 [AddEvent 0 1 16, AddEvent 0 1 16]"
    by (subst parse_events_good) (simp_all add: b6 header_fields)
  also have "\<dots> = parse_events ?B 0 2 12 14 4 [AddEvent 0 1 16, AddEvent 0 1 16, AddEvent 0 1 16]"
    by (subst parse_events_good) (simp_all add: b10 header_fields)
  also have "\<dots> = (14, 4, [AddEvent 0 1 16, AddEvent 0 1 16, AddEvent 0 1 16])"
    by (simp add: parse_events_stop)
  finally show ?thesis .
qed

text \<open>The module that carries two words and reads twelve.\<close>

lemma refill_parse:
  "parse_events (load_module buf 0 0 [0x80021, 1] (\<lambda>i. refill_words ! i) 12) 0 2 16 2 0 []
     = (18, 4, [AddEvent 0 1 16, AddEvent 0 1 16, AddEvent 0 1 16, AddEvent 0 1 16])"
proof -
  let ?B = "load_module buf 0 0 [0x80021, 1] (\<lambda>i. refill_words ! i) 12"
  have b2: "?B 2 = 0x80021" by (simp add: load_module_apply)
  have b6: "?B 6 = 0x80021" by (simp add: load_module_apply refill_words_def)
  have b10: "?B 10 = 0x80021" by (simp add: load_module_apply refill_words_def)
  have b14: "?B 14 = 0x80021" by (simp add: load_module_apply refill_words_def)
  have "parse_events ?B 0 2 16 2 0 [] = parse_events ?B 0 2 16 6 4 [AddEvent 0 1 16]"
    by (subst parse_events_good) (simp_all add: b2 header_fields)
  also have "\<dots> = parse_events ?B 0 2 16 10 4 [AddEvent 0 1 16, AddEvent 0 1 16]"
    by (subst parse_events_good) (simp_all add: b6 header_fields)
  also have "\<dots> = parse_events ?B 0 2 16 14 4 [AddEvent 0 1 16, AddEvent 0 1 16, AddEvent 0 1 16]"
    by (subst parse_events_good) (simp_all add: b10 header_fields)
  also have "\<dots> = parse_events ?B 0 2 16 18 4
                      [AddEvent 0 1 16, AddEvent 0 1 16, AddEvent 0 1 16, AddEvent 0 1 16]"
    by (subst parse_events_good) (simp_all add: b14 header_fields)
  also have "\<dots> = (18, 4, [AddEvent 0 1 16, AddEvent 0 1 16, AddEvent 0 1 16, AddEvent 0 1 16])"
    by (simp add: parse_events_stop)
  finally show ?thesis .
qed

lemma refill_stream: "map (\<lambda>i. refill_words ! i) [0 ..< 12] = refill_words"
  by (simp add: refill_words_def upt_rec)

text \<open>
  A module that carries two saved words and reads twelve: the saved words and the new
  ones stand behind the module number; they make three events of four words and the
  first two words of a fourth, which are saved; the segment is closed with length 14.
\<close>

theorem partial_event_saved_and_restored_witness:
  "MIN_FIFO_READ crate_defs \<le> 12 \<and> 12 < EXTERNAL_FIFO_LENGTH crate_defs
   \<and> ReadFIFOWords refill_crate 0 = Some (\<lambda>i. refill_words ! i)
   \<and> partialEvent carrying 0 = [0x80021, 1]
   \<and> 0 + 2 + length (partialEvent carrying 0) + 12
       \<le> (EXTERNAL_FIFO_LENGTH crate_defs + 2) * n_cards carrying
   \<and> (\<exists>s. read_module refill_crate crate_defs carrying 12 0 0 = Inr (s, 14)
          \<and> fifoData s 1 = 0
          \<and> map (fifoData s) [2 ..< 16] = [0x80021, 1] @ refill_words
          \<and> partialEvent s 0 = [0x80021, 1]
          \<and> unat (fifoData s 0) = 14)"
proof -
  let ?d = "\<lambda>i. refill_words ! i"
  have pe: "partialEvent carrying 0 = [0x80021, 1]"
    by (simp add: carrying_def)
  have h1: "MIN_FIFO_READ crate_defs \<le> 12" and h2: "12 < EXTERNAL_FIFO_LENGTH crate_defs"
    by (simp_all add: crate_defs_def)
  have h3: "ReadFIFOWords refill_crate 0 = Some ?d"
    by (simp add: refill_crate_def quiet_crate_def)
  have h4: "12 + length (partialEvent carrying 0) + 2 < (2::nat) ^ 32" by (simp add: pe)
  have h5: "0 + 2 + length (partialEvent carrying 0) + 12
              \<le> (EXTERNAL_FIFO_LENGTH crate_defs + 2) * n_cards carrying"
    by (simp add: pe crate_defs_def carrying_def running_def Poll_def)
  have h6: "parse_events (load_module (fifoData carrying) 0 0 (partialEvent carrying 0) ?d 12) 0
              (GetSlotNumber refill_crate 0)
              (0 + 2 + (12 + length (partialEvent carrying 0))) (0 + 2) 0 []
            = (18, 4, [AddEvent 0 1 16, AddEvent 0 1 16, AddEvent 0 1 16, AddEvent 0 1 16])"
  proof -
    have a: "(2::nat) + (12 + length ([0x80021, 1] :: word_t list)) = 16" by simp
    have b: "(0::nat) + 2 = 2" by simp
    have c: "GetSlotNumber refill_crate 0 = 2"
      by (simp add: refill_crate_def quiet_crate_def)
    show ?thesis unfolding pe b a c by (rule refill_parse)
  qed
  have long: "0 + 2 + (12 + length (partialEvent carrying 0)) < (18::nat)" by (simp add: pe)
  from partial_event_saved_and_restored [OF h1 h2 h3 h4 h5 h6] long
  obtain s where r: "read_module refill_crate crate_defs carrying 12 0 0 = Inr (s, 18 - 4)"
    and m: "fifoData s (0 + 1) = of_nat 0"
    and cells: "map (fifoData s) [0 + 2 ..< 0 + 2 + length (partialEvent carrying 0) + 12]
                  = partialEvent carrying 0 @ map ?d [0 ..< 12]"
    and saved: "partialEvent s 0
                  = map (fifoData s) [18 - 4 ..< 0 + 2 + (12 + length (partialEvent carrying 0))]"
    and lw: "unat (fifoData s 0)
               = 12 + length (partialEvent carrying 0)
                 - (4 - (18 - (0 + 2 + (12 + length (partialEvent carrying 0))))) + 2"
    by blast
  have e0: "(0::nat) + 2 = 2" by simp
  have e1: "(2::nat) + length ([0x80021, 1] :: word_t list) + 12 = 16" by simp
  have cells': "map (fifoData s) [2 ..< 16] = [0x80021, 1] @ refill_words"
    using cells unfolding pe e0 e1 refill_stream .
  have c14: "fifoData s 14 = 0x80021"
    using arg_cong [OF cells', of "\<lambda>xs. xs ! 12"] by (simp add: refill_words_def)
  have c15: "fifoData s 15 = 1"
    using arg_cong [OF cells', of "\<lambda>xs. xs ! 13"] by (simp add: refill_words_def)
  have saved': "partialEvent s 0 = [0x80021, 1]"
    using saved c14 c15 by (simp add: pe upt_rec)
  have r': "read_module refill_crate crate_defs carrying 12 0 0 = Inr (s, 14)"
    using r by simp
  have m': "fifoData s 1 = 0" using m by simp
  have lw': "unat (fifoData s 0) = 14" using lw by (simp add: pe)
  from h1 h2 h3 pe h5 r' m' cells' saved' lw' show ?thesis by blast
qed

text \<open>The pass that saves two words, and the forced pass behind it.\<close>

lemma straddle_module:
  assumes pe: "partialEvent st 0 = []"
  shows "\<exists>s. read_module straddle_crate crate_defs st 10 0 0 = Inr (s, 10)
           \<and> partialEvent s 0 = [0x80021, 1]
           \<and> overrun s = (overrun st \<or> past_end crate_defs st 12)
           \<and> drain_frame st s"
proof -
  let ?d = "\<lambda>i. straddle_words ! i"
  let ?B = "load_module (fifoData st) 0 0 (partialEvent st 0) ?d 10"
  let ?st1 = "st\<lparr>fifoData := ?B, partialEvent := (partialEvent st)(0 := []),
                  overrun := (overrun st
                              \<or> past_end crate_defs st (0 + 2 + length (partialEvent st 0) + 10))\<rparr>"
  have h1: "MIN_FIFO_READ crate_defs \<le> 10" and h2: "10 < EXTERNAL_FIFO_LENGTH crate_defs"
    by (simp_all add: crate_defs_def)
  have h3: "ReadFIFOWords straddle_crate 0 = Some ?d"
    by (simp add: straddle_crate_def quiet_crate_def)
  have h4: "10 + length (partialEvent st 0) < (2::nat) ^ 32" by (simp add: pe)
  have h5: "parse_events ?B 0 (GetSlotNumber straddle_crate 0)
              (0 + 2 + (10 + length (partialEvent st 0))) (0 + 2) 0 []
            = (14, 4, [AddEvent 0 1 16, AddEvent 0 1 16, AddEvent 0 1 16])"
  proof -
    have a: "(2::nat) + (10 + length ([] :: word_t list)) = 12" by simp
    have b: "(0::nat) + 2 = 2" by simp
    have c: "GetSlotNumber straddle_crate 0 = 2"
      by (simp add: straddle_crate_def quiet_crate_def)
    show ?thesis unfolding pe b a c by (rule straddle_parse)
  qed
  let ?S = "?st1\<lparr>stats := stats ?st1 @ [AddEvent 0 1 16, AddEvent 0 1 16, AddEvent 0 1 16],
                   partialEvent := (partialEvent ?st1)
                     (0 := partialEvent ?st1 0
                           @ map ?B [14 - 4 ..< 0 + 2 + (10 + length (partialEvent st 0))]),
                   fifoData := ?B(0 := of_nat (14 - 4 - 0))\<rparr>"
  have "finish_module crate_defs ?st1 ?B 0 (0 + 2) (10 + length (partialEvent st 0)) 14 4
          [AddEvent 0 1 16, AddEvent 0 1 16, AddEvent 0 1 16]
        = Inr (?S, 14 - 4)"
    by (rule finish_module_straddle) (simp_all add: pe)
  then have r: "read_module straddle_crate crate_defs st 10 0 0 = Inr (?S, 10)"
    unfolding read_module_read [OF h1 h2 h3 h4 h5] by simp
  have b10: "?B 10 = 0x80021"
    unfolding pe using straddle_at [of 8 "fifoData st"] by (simp add: straddle_words_def)
  have b11: "?B 11 = 1"
    unfolding pe using straddle_at [of 9 "fifoData st"] by (simp add: straddle_words_def)
  have tail: "map ?B [14 - 4 ..< 0 + 2 + (10 + length (partialEvent st 0))] = [0x80021, 1]"
    using b10 b11 by (simp add: pe upt_rec)
  have p: "partialEvent ?S 0 = [0x80021, 1]" using tail by simp
  have o: "overrun ?S = (overrun st \<or> past_end crate_defs st 12)" by (simp add: pe)
  from read_module_frame_Inr [OF r] have fr: "drain_frame st ?S" .
  from r p o fr show ?thesis by blast
qed

lemma one_card_wait:
  assumes c: "n_cards st = 1" "threshWords st = 0"
  shows "drain_wait straddle_crate st = ([10], 1)"
    and "drain_wait quiet_crate st = ([0], 100)"
proof -
  show "drain_wait straddle_crate st = ([10], 1)"
    unfolding drain_wait_def
    by (subst wait_loop.simps)
       (simp add: c POLL_TRIES_def poll_round_def straddle_crate_def quiet_crate_def
          max_element_def w32_def)
  have le: "max_element (poll_round quiet_crate (n_cards st) k) \<le> threshWords st" for k
    by (simp add: c poll_round_def quiet_crate_def max_element_def w32_def)
  have n: "snd (drain_wait quiet_crate st) = POLL_TRIES"
    unfolding drain_wait_def using le by (intro wait_loop_exhaust) simp_all
  have "fst (drain_wait quiet_crate st)
          = poll_round quiet_crate (n_cards st) (snd (drain_wait quiet_crate st) - 1)"
    using wait_loop_bound [of 0 quiet_crate "n_cards st" "threshWords st"
                              "replicate (n_cards st) 0"]
    by (simp add: drain_wait_def POLL_TRIES_def)
  then have f: "fst (drain_wait quiet_crate st) = [0]"
    by (simp add: n c POLL_TRIES_def poll_round_def quiet_crate_def w32_def)
  show "drain_wait quiet_crate st = ([0], 100)"
    using n f by (simp add: prod_eq_iff POLL_TRIES_def)
qed

lemma first_pass:
  "fst (ReadFIFO straddle_crate crate_defs running) = True
   \<and> partialEvent carried 0 = [0x80021, 1]
   \<and> acq_running carried \<and> \<not> force_spill carried \<and> n_cards carried = 1
   \<and> threshWords carried = 0 \<and> \<not> record_data carried \<and> \<not> shm_mode carried
   \<and> sent carried = [StatusPacket]"
proof -
  let ?st0 = "running\<lparr>force_spill := False\<rparr>"
  have f: "acq_running running" "n_cards running = 1" "threshWords running = 0"
    "\<not> record_data running" "\<not> shm_mode running" "sent running = []"
    "partialEvent ?st0 0 = []" "\<not> force_spill running"
    by (simp_all add: running_def Poll_def)
  from straddle_module [OF f(7)]
  obtain s where rm: "read_module straddle_crate crate_defs ?st0 10 0 0 = Inr (s, 10)"
    and p: "partialEvent s 0 = [0x80021, 1]" and fr: "drain_frame ?st0 s"
    by blast
  have ml: "module_loop straddle_crate crate_defs [10] ?st0 0 [0 ..< n_cards ?st0] = Inr (s, 10)"
    using rm by (simp add: f)
  have rec: "\<not> record_data s" "\<not> shm_mode s"
    using fr f by (simp_all add: drain_frame_def)
  have dm: "drain_modules straddle_crate crate_defs [10] ?st0
              = (True, s\<lparr>sent := sent s @ [StatusPacket]\<rparr>)"
    unfolding drain_modules_def ml using rec by (simp add: broadcast_data_def)
  have R: "ReadFIFO straddle_crate crate_defs running = (True, s\<lparr>sent := sent s @ [StatusPacket]\<rparr>)"
    using f dm by (simp add: ReadFIFO_def one_card_wait(1) max_element_def)
  have fs: "force_spill s = force_spill ?st0"
    using rm by (auto simp: read_module_def finish_module_def Let_def
                      split: if_splits option.splits prod.splits)
  show ?thesis
    unfolding carried_def R using p fr f fs by (simp add: drain_frame_def)
qed

text \<open>
  C1 as stated fails when the next pass finds the FIFO of the module empty. A first pass
  reads ten words and saves the two words of the event that was cut off. In the next
  pass, forced while the FIFO is empty, the module is below \<open>MIN_FIFO_READ\<close>: the spill
  is \<open>[2, 0]\<close>, and the two saved words are neither written to it nor cleared.
\<close>

theorem skipped_module_keeps_partial:
  "fst (ReadFIFO straddle_crate crate_defs running) = True
   \<and> partialEvent carried 0 = [0x80021, 1]
   \<and> acq_running flushing \<and> force_spill flushing
   \<and> fst (drain_wait quiet_crate flushing) ! 0 < MIN_FIFO_READ crate_defs
   \<and> fst (ReadFIFO quiet_crate crate_defs flushing) = True
   \<and> map (fifoData (snd (ReadFIFO quiet_crate crate_defs flushing))) [0 ..< 2] = [2, 0]
   \<and> sent (snd (ReadFIFO quiet_crate crate_defs flushing)) = [StatusPacket, StatusPacket]
   \<and> partialEvent (snd (ReadFIFO quiet_crate crate_defs flushing)) 0 = [0x80021, 1]"
proof -
  let ?st0 = "flushing\<lparr>force_spill := False\<rparr>"
  let ?s = "?st0\<lparr>fifoData := (fifoData ?st0)(0 := 2, 0 + 1 := of_nat 0),
                  overrun := (overrun ?st0 \<or> past_end crate_defs ?st0 (0 + 2))\<rparr>"
  have one: "fst (ReadFIFO straddle_crate crate_defs running) = True"
    "partialEvent carried 0 = [0x80021, 1]"
    using first_pass by blast+
  have f: "acq_running flushing" "force_spill flushing" "n_cards flushing = 1"
    "threshWords flushing = 0"
    "\<not> record_data flushing" "\<not> shm_mode flushing" "sent flushing = [StatusPacket]"
    "partialEvent flushing 0 = [0x80021, 1]"
    using first_pass by (simp_all add: flushing_def)
  have wait: "drain_wait quiet_crate flushing = ([0], 100)"
    using f(3,4) by (rule one_card_wait(2))
  have low: "[0] ! 0 < MIN_FIFO_READ crate_defs" by (simp add: crate_defs_def)
  have rm: "read_module quiet_crate crate_defs ?st0 ([0] ! 0) 0 0 = Inr (?s, 0 + 2)"
    using low by (rule read_module_skip)
  have ml: "module_loop quiet_crate crate_defs [0] ?st0 0 [0 ..< n_cards ?st0] = Inr (?s, 2)"
    using rm by (simp add: f)
  have dm: "drain_modules quiet_crate crate_defs [0] ?st0
              = (True, broadcast_data ?s (fifoData ?s) (w32 2))"
    unfolding drain_modules_def ml using f by simp
  have R: "ReadFIFO quiet_crate crate_defs flushing
             = (True, broadcast_data ?s (fifoData ?s) (w32 2))"
    using f dm by (simp add: ReadFIFO_def wait)
  have b: "broadcast_data ?s (fifoData ?s) (w32 2) = ?s\<lparr>sent := sent ?s @ [StatusPacket]\<rparr>"
    using f by (simp add: broadcast_data_def)
  show ?thesis
    unfolding R b using one f low by (simp add: wait upt_rec)
qed





section \<open>Corrupted data\<close>

lemma read_module_Inr_console:
  "read_module g P st nW m dw = Inr (s, dw') \<Longrightarrow> console s = console st"
  by (auto simp: read_module_def finish_module_def Let_def
           split: if_splits option.splits prod.splits)

lemma module_loop_Inr_console:
  "module_loop g P W st dw ms = Inr (s, dw') \<Longrightarrow> console s = console st"
proof (induction ms arbitrary: st dw)
  case Nil
  then show ?case by simp
next
  case (Cons m ms)
  show ?case
  proof (cases "read_module g P st (W ! m) m dw")
    case (Inl x)
    with Cons.prems show ?thesis by simp
  next
    case (Inr p)
    obtain a b where p: "p = (a, b)" by (cases p)
    from Inr p Cons.prems have "module_loop g P W a b ms = Inr (s, dw')" by simp
    from Cons.IH [OF this] read_module_Inr_console [OF Inr [unfolded p]]
    show ?thesis by simp
  qed
qed

lemma module_loop_append:
  "module_loop g P W st dw (xs @ ys)
     = (case module_loop g P W st dw xs of
          Inl s \<Rightarrow> Inl s
        | Inr (s, dw') \<Rightarrow> module_loop g P W s dw' ys)"
  by (induction xs arbitrary: st dw) (auto split: sum.splits)

lemma load_module_nth:
  "i < length partial + nW \<Longrightarrow>
   load_module buf dw m partial d nW (dw + 2 + i) = (partial @ map d [0 ..< nW]) ! i"
  by (auto simp: load_module_apply nth_append)

lemma corrupt_module:
  assumes min: "MIN_FIFO_READ P \<le> nW" and lt: "nW < EXTERNAL_FIFO_LENGTH P"
    and rd: "ReadFIFOWords g m = Some d"
    and nowrap: "nW + length (partialEvent st m) < 2 ^ 32"
    and data: "partialEvent st m @ map d [0 ..< nW] = concat evs @ h # rest"
    and good: "\<forall>ev \<in> set evs. ev \<noteq> [] \<and> slotRead (hd ev) = GetSlotNumber g m
                  \<and> eventSize_of (hd ev) = length ev"
    and bad: "slotRead h \<noteq> GetSlotNumber g m \<or> chanRead h > 15 \<or> eventSize_of h = 0"
  shows "\<exists>s. read_module g P st nW m dw = Inl s \<and> had_error s \<and> stop_acq s
           \<and> console s = (if is_quiet st then console st
                           else console st
                                @ [HexDump (map (\<lambda>i. fifoData s (dw + 2 + i)) [0 ..< 100])])"
proof -
  let ?pe = "partialEvent st m"
  let ?B = "load_module (fifoData st) dw m ?pe d nW"
  let ?n1 = "nW + length ?pe"
  let ?st1 = "st\<lparr>fifoData := ?B, partialEvent := (partialEvent st)(m := []),
                   overrun := (overrun st \<or> past_end P st (dw + 2 + length ?pe + nW))\<rparr>"
  let ?data = "concat evs @ h # rest"
  have dl: "length ?data = ?n1"
    using arg_cong [OF data, of length] by simp
  have lim: "dw + 2 + ?n1 = dw + 2 + length ?data" using dl by simp
  have at: "\<forall>i < length ?data. ?B (dw + 2 + i) = ?data ! i"
  proof (intro allI impI)
    fix i assume i: "i < length ?data"
    then have "i < length ?pe + nW" using dl by simp
    then have "?B (dw + 2 + i) = (?pe @ map d [0 ..< nW]) ! i" by (rule load_module_nth)
    then show "?B (dw + 2 + i) = ?data ! i" unfolding data .
  qed
  obtain pw es calls where
    pr: "parse_events ?B m (GetSlotNumber g m) (dw + 2 + ?n1) (dw + 2) 0 [] = (pw, es, calls)"
    by (cases "parse_events ?B m (GetSlotNumber g m) (dw + 2 + ?n1) (dw + 2) 0 []")
  have "fst (parse_events ?B m (GetSlotNumber g m) (dw + 2 + ?n1) (dw + 2) 0 [])
          = dw + 2 + length (concat evs)"
    by (rule parse_events_walk [OF at lim good bad])
  then have pw: "pw = dw + 2 + length (concat evs)" unfolding pr by simp
  have short: "pw < dw + 2 + ?n1" unfolding pw dl [symmetric] by simp
  let ?S = "?st1\<lparr>stats := stats ?st1 @ calls,
                console := (if \<not> is_quiet ?st1
                            then console ?st1 @ [HexDump (map (\<lambda>i. ?B (dw + 2 + i)) [0 ..< 100])]
                            else console ?st1),
                overrun := (overrun ?st1
                            \<or> (\<not> is_quiet ?st1 \<and> past_end P ?st1 (dw + 2 + 100))),
                stop_acq := True, had_error := True\<rparr>"
  have "read_module g P st nW m dw = Inl ?S"
    unfolding read_module_read [OF min lt rd nowrap pr]
    by (rule finish_module_corrupt [OF short])
  moreover have "had_error ?S" "stop_acq ?S" by simp_all
  moreover have "console ?S = (if is_quiet st then console st
                           else console st
                                @ [HexDump (map (\<lambda>i. fifoData ?S (dw + 2 + i)) [0 ..< 100])])"
    by simp
  ultimately show ?thesis by blast
qed



lemma corrupt_drain:
  assumes run: "acq_running st"
    and wait: "drain_wait g st = (W, r)"
    and drains: "max_element W > threshWords st \<or> stop_acq st \<or> force_spill st"
    and m: "m < n_cards st"
    and reached: "module_loop g P W (st\<lparr>force_spill := False\<rparr>) 0 [0 ..< m] = Inr (st1, dw)"
    and min: "MIN_FIFO_READ P \<le> W ! m" and lt: "W ! m < EXTERNAL_FIFO_LENGTH P"
    and rd: "ReadFIFOWords g m = Some d"
    and nowrap: "W ! m + length (partialEvent st1 m) < 2 ^ 32"
    and data: "partialEvent st1 m @ map d [0 ..< W ! m] = concat evs @ h # rest"
    and good: "\<forall>ev \<in> set evs. ev \<noteq> [] \<and> slotRead (hd ev) = GetSlotNumber g m
                  \<and> eventSize_of (hd ev) = length ev"
    and bad: "slotRead h \<noteq> GetSlotNumber g m \<or> chanRead h > 15 \<or> eventSize_of h = 0"
  shows "fst (ReadFIFO g P st) = False
       \<and> had_error (snd (ReadFIFO g P st)) \<and> stop_acq (snd (ReadFIFO g P st))
       \<and> console (snd (ReadFIFO g P st))
           = (if is_quiet st then console st
              else console st
                   @ [HexDump (map (\<lambda>i. fifoData (snd (ReadFIFO g P st)) (dw + 2 + i)) [0 ..< 100])])
       \<and> sent (snd (ReadFIFO g P st)) = sent st
       \<and> output_file (snd (ReadFIFO g P st)) = output_file st"
proof -
  let ?st0 = "st\<lparr>force_spill := False\<rparr>"
  from corrupt_module [OF min lt rd nowrap data good bad, of dw]
  obtain s where rm: "read_module g P st1 (W ! m) m dw = Inl s"
    and e: "had_error s" "stop_acq s"
    and c: "console s = (if is_quiet st1 then console st1
                         else console st1
                              @ [HexDump (map (\<lambda>i. fifoData s (dw + 2 + i)) [0 ..< 100])])"
    by blast
  have split: "[0 ..< n_cards st] = [0 ..< m] @ m # [Suc m ..< n_cards st]"
  proof -
    have "[0 ..< n_cards st] = [0 ..< m] @ [m ..< n_cards st]"
      using m by (metis le0 less_imp_le_nat le_Suc_ex upt_add_eq_append)
    moreover have "[m ..< n_cards st] = m # [Suc m ..< n_cards st]"
      using m by (rule upt_conv_Cons)
    ultimately show ?thesis by simp
  qed
  have ml: "module_loop g P W ?st0 0 [0 ..< n_cards ?st0] = Inl s"
    using reached rm by (simp add: split module_loop_append)
  from module_loop_frame_Inr [OF reached] have f1: "drain_frame ?st0 st1" .
  from module_loop_Inr_console [OF reached] have c1: "console st1 = console st" by simp
  from f1 have q1: "is_quiet st1 = is_quiet st" by (simp add: drain_frame_def)
  from module_loop_frame_Inl [OF ml] have f: "drain_frame ?st0 s" by blast
  have "ReadFIFO g P st = drain_modules g P W ?st0"
    using run drains by (auto simp: ReadFIFO_def wait)
  also have "\<dots> = (False, s)" using ml by (simp add: drain_modules_def)
  finally have R: "ReadFIFO g P st = (False, s)" .
  show ?thesis
    unfolding R using e c f by (simp add: c1 q1 drain_frame_def)
qed

text \<open>The crate that delivers zeros: the first header has slot 0 where slot 2 is expected.\<close>

lemma corrupt_wait:
  "n_cards st = 1 \<Longrightarrow> threshWords st = 0 \<Longrightarrow> drain_wait corrupt_crate st = ([9], 1)"
  unfolding drain_wait_def
  by (subst wait_loop.simps)
     (simp add: POLL_TRIES_def poll_round_def corrupt_crate_def quiet_crate_def
        max_element_def w32_def)

lemma corrupt_crate_drain:
  assumes "acq_running st" and "n_cards st = 1" and "threshWords st = 0"
    and "partialEvent st 0 = []"
  shows "fst (ReadFIFO corrupt_crate crate_defs st) = False
       \<and> console (snd (ReadFIFO corrupt_crate crate_defs st))
           = (if is_quiet st then console st
              else console st
                   @ [HexDump (map (\<lambda>i. fifoData (snd (ReadFIFO corrupt_crate crate_defs st))
                                          (0 + 2 + i)) [0 ..< 100])])"
proof -
  have wait: "drain_wait corrupt_crate st = ([9], 1)"
    using assms(2,3) by (rule corrupt_wait)
  have drains: "max_element [9] > threshWords st \<or> stop_acq st \<or> force_spill st"
    using assms(3) by (simp add: max_element_def)
  have m: "0 < n_cards st" using assms(2) by simp
  have reached: "module_loop corrupt_crate crate_defs [9] (st\<lparr>force_spill := False\<rparr>) 0 [0 ..< 0]
                   = Inr (st\<lparr>force_spill := False\<rparr>, 0)" by simp
  have min: "MIN_FIFO_READ crate_defs \<le> [9] ! 0" and lt: "[9] ! 0 < EXTERNAL_FIFO_LENGTH crate_defs"
    by (simp_all add: crate_defs_def)
  have rd: "ReadFIFOWords corrupt_crate 0 = Some zero_words"
    by (simp add: corrupt_crate_def quiet_crate_def)
  have nowrap: "[9] ! 0 + length (partialEvent (st\<lparr>force_spill := False\<rparr>) 0) < (2::nat) ^ 32"
    using assms(4) by simp
  have data: "partialEvent (st\<lparr>force_spill := False\<rparr>) 0 @ map zero_words [0 ..< [9] ! 0]
                = concat [] @ 0 # [0, 0, 0, 0, 0, 0, 0, 0]"
    using assms(4) by (simp add: zero_words_def upt_rec)
  have good: "\<forall>ev \<in> set []. ev \<noteq> [] \<and> slotRead (hd ev) = GetSlotNumber corrupt_crate 0
                  \<and> eventSize_of (hd ev) = length ev" by simp
  have bad: "slotRead 0 \<noteq> GetSlotNumber corrupt_crate 0 \<or> chanRead 0 > 15 \<or> eventSize_of 0 = 0"
    by (simp add: eventSize_of_def)
  from corrupt_drain [OF assms(1) wait drains m reached min lt rd nowrap data good bad]
  show ?thesis by blast
qed

text \<open>
  C5, as amended: a pass of a running acquisition reads data and reaches module \<open>m\<close>,
  whose data (saved partial event, then the words read) consist of well-formed events
  followed by a header \<open>h\<close> that violates an invariant (wrong slot, channel above 15,
  or event size 0). Then \<open>ReadFIFO\<close> returns \<open>false\<close> with \<open>had_error\<close> and \<open>stop_acq\<close> set
  and nothing written or broadcast. The 100 buffer words from the start of the data of
  the module are dumped exactly when the program is not in quiet mode; \<open>debug_mode\<close>
  plays no part.
\<close>

theorem corrupt_header_aborts:
  assumes "acq_running st"
    and "drain_wait g st = (W, r)"
    and "max_element W > threshWords st \<or> stop_acq st \<or> force_spill st"
    and "m < n_cards st"
    and "module_loop g P W (st\<lparr>force_spill := False\<rparr>) 0 [0 ..< m] = Inr (st1, dw)"
    and "MIN_FIFO_READ P \<le> W ! m" and "W ! m < EXTERNAL_FIFO_LENGTH P"
    and "ReadFIFOWords g m = Some d"
    and "W ! m + length (partialEvent st1 m) < 2 ^ 32"
    and "partialEvent st1 m @ map d [0 ..< W ! m] = concat evs @ h # rest"
    and "\<forall>ev \<in> set evs. ev \<noteq> [] \<and> slotRead (hd ev) = GetSlotNumber g m
                  \<and> eventSize_of (hd ev) = length ev"
    and "slotRead h \<noteq> GetSlotNumber g m \<or> chanRead h > 15 \<or> eventSize_of h = 0"
  shows "fst (ReadFIFO g P st) = False
       \<and> had_error (snd (ReadFIFO g P st)) \<and> stop_acq (snd (ReadFIFO g P st))
       \<and> console (snd (ReadFIFO g P st))
           = (if is_quiet st then console st
              else console st
                   @ [HexDump (map (\<lambda>i. fifoData (snd (ReadFIFO g P st)) (dw + 2 + i)) [0 ..< 100])])
       \<and> sent (snd (ReadFIFO g P st)) = sent st
       \<and> output_file (snd (ReadFIFO g P st)) = output_file st"
  using assms by (rule corrupt_drain)

text \<open>One module delivering nine zero words, not in quiet mode: one dump.\<close>

theorem corrupt_header_aborts_witness:
  "acq_running running \<and> drain_wait corrupt_crate running = ([9], 1)
   \<and> max_element [9] > threshWords running \<and> 0 < n_cards running
   \<and> MIN_FIFO_READ crate_defs \<le> [9] ! 0 \<and> [9] ! 0 < EXTERNAL_FIFO_LENGTH crate_defs
   \<and> ReadFIFOWords corrupt_crate 0 = Some zero_words
   \<and> slotRead 0 \<noteq> GetSlotNumber corrupt_crate 0
   \<and> \<not> is_quiet running
   \<and> fst (ReadFIFO corrupt_crate crate_defs running) = False
   \<and> had_error (snd (ReadFIFO corrupt_crate crate_defs running))
   \<and> stop_acq (snd (ReadFIFO corrupt_crate crate_defs running))
   \<and> length (console (snd (ReadFIFO corrupt_crate crate_defs running))) = 1"
proof -
  let ?st = running
  have run: "acq_running ?st" and q: "\<not> is_quiet ?st" and co: "console ?st = []"
    and pe: "partialEvent ?st 0 = []"
    by (simp_all add: running_def Poll_def)
  have wait: "drain_wait corrupt_crate ?st = ([9], 1)"
    by (rule corrupt_wait) (simp_all add: running_def Poll_def)
  have drains: "max_element [9] > threshWords ?st \<or> stop_acq ?st \<or> force_spill ?st"
    and big: "max_element [9] > threshWords ?st"
    by (simp_all add: max_element_def running_def Poll_def)
  have m: "0 < n_cards ?st" by (simp add: running_def Poll_def)
  have reached: "module_loop corrupt_crate crate_defs [9] (?st\<lparr>force_spill := False\<rparr>) 0 [0 ..< 0]
                   = Inr (?st\<lparr>force_spill := False\<rparr>, 0)" by simp
  have min: "MIN_FIFO_READ crate_defs \<le> [9] ! 0" and lt: "[9] ! 0 < EXTERNAL_FIFO_LENGTH crate_defs"
    by (simp_all add: crate_defs_def)
  have rd: "ReadFIFOWords corrupt_crate 0 = Some zero_words"
    by (simp add: corrupt_crate_def quiet_crate_def)
  have nowrap: "[9] ! 0 + length (partialEvent (?st\<lparr>force_spill := False\<rparr>) 0) < (2::nat) ^ 32"
    using pe by simp
  have data: "partialEvent (?st\<lparr>force_spill := False\<rparr>) 0 @ map zero_words [0 ..< [9] ! 0]
                = concat [] @ 0 # [0, 0, 0, 0, 0, 0, 0, 0]"
    using pe by (simp add: zero_words_def upt_rec)
  have good: "\<forall>ev \<in> set []. ev \<noteq> [] \<and> slotRead (hd ev) = GetSlotNumber corrupt_crate 0
                  \<and> eventSize_of (hd ev) = length ev" by simp
  have slot: "slotRead 0 \<noteq> GetSlotNumber corrupt_crate 0"
    by (simp add: slotRead_def corrupt_crate_def quiet_crate_def)
  then have bad: "slotRead 0 \<noteq> GetSlotNumber corrupt_crate 0 \<or> chanRead 0 > 15
                  \<or> eventSize_of 0 = 0" by simp
  from corrupt_header_aborts [OF run wait drains m reached min lt rd nowrap data good bad] q co
  have "fst (ReadFIFO corrupt_crate crate_defs ?st) = False"
    and "had_error (snd (ReadFIFO corrupt_crate crate_defs ?st))"
    and "stop_acq (snd (ReadFIFO corrupt_crate crate_defs ?st))"
    and "length (console (snd (ReadFIFO corrupt_crate crate_defs ?st))) = 1"
    by simp_all
  with run wait big m min lt rd slot q show ?thesis by blast
qed

text \<open>
  C5 as stated fails: in debug mode with quiet mode on, a header with the wrong slot
  aborts the pass and nothing is dumped.
\<close>

theorem no_dump_in_quiet_debug_mode:
  "debug_mode debugging_quietly
   \<and> slotRead (zero_words 0) \<noteq> GetSlotNumber corrupt_crate 0
   \<and> fst (ReadFIFO corrupt_crate crate_defs debugging_quietly) = False
   \<and> console (snd (ReadFIFO corrupt_crate crate_defs debugging_quietly)) = []"
proof -
  have a: "acq_running debugging_quietly" "n_cards debugging_quietly = 1"
    "threshWords debugging_quietly = 0" "partialEvent debugging_quietly 0 = []"
    and q: "is_quiet debugging_quietly" "debug_mode debugging_quietly"
      "console debugging_quietly = []"
    by (simp_all add: debugging_quietly_def running_def Poll_def)
  have slot: "slotRead (zero_words 0) \<noteq> GetSlotNumber corrupt_crate 0"
    by (simp add: slotRead_def zero_words_def corrupt_crate_def quiet_crate_def)
  from corrupt_crate_drain [OF a] q slot show ?thesis by simp
qed



section \<open>The saved partial events stay short\<close>

lemma read_module_Inl_partial:
  "read_module g P st nW m dw = Inl s \<Longrightarrow>
   \<forall>k. length (partialEvent s k) \<le> length (partialEvent st k)"
  by (auto simp: read_module_def finish_module_def Let_def
           split: if_splits option.splits prod.splits)

lemma module_loop_partial_bound:
  assumes fifo: "EXTERNAL_FIFO_LENGTH P + 16386 \<le> 2 ^ 32"
    and inv: "\<forall>k. length (partialEvent st k) < 16384"
  shows "\<forall>k. length (partialEvent (case module_loop g P W st dw ms of
                                    Inl s \<Rightarrow> s | Inr (s, dw') \<Rightarrow> s) k) < 16384"
  using inv
proof (induction ms arbitrary: st dw)
  case Nil
  then show ?case by simp
next
  case (Cons m ms)
  show ?case
  proof (cases "read_module g P st (W ! m) m dw")
    case (Inl s)
    from read_module_Inl_partial [OF Inl] Cons.prems
    have "\<forall>k. length (partialEvent s k) < 16384" by (meson le_less_trans)
    with Inl show ?thesis by simp
  next
    case (Inr p)
    obtain s dw1 where p: "p = (s, dw1)" by (cases p)
    from read_module_Inr_segment [OF Inr [unfolded p] fifo Cons.prems]
    have "\<forall>k. length (partialEvent s k) < 16384" by blast
    from Cons.IH [OF this, of dw1] Inr p show ?thesis by simp
  qed
qed

lemma write_data_partialEvent: "partialEvent (write_data st d n) = partialEvent st"
  by (simp add: write_data_def open_output_file_def close_output_file_def OpenNewFile_def
        Let_def)

lemma ReadFIFO_partial_bound:
  assumes fifo: "EXTERNAL_FIFO_LENGTH P + 16386 \<le> 2 ^ 32"
    and inv: "\<forall>k. length (partialEvent st k) < 16384"
  shows "\<forall>k. length (partialEvent (snd (ReadFIFO g P st)) k) < 16384"
proof -
  obtain W r where wr: "drain_wait g st = (W, r)" by (cases "drain_wait g st")
  let ?st0 = "st\<lparr>force_spill := False\<rparr>"
  have inv0: "\<forall>k. length (partialEvent ?st0 k) < 16384" using inv by simp
  have dm: "\<forall>k. length (partialEvent (snd (drain_modules g P W ?st0)) k) < 16384"
    using module_loop_partial_bound [OF fifo inv0, of g W 0 "[0 ..< n_cards ?st0]"]
    by (cases "module_loop g P W ?st0 0 [0 ..< n_cards ?st0]")
       (auto simp: drain_modules_def Let_def broadcast_data_def write_data_partialEvent)
  show ?thesis
    using inv dm by (simp add: ReadFIFO_def wr)
qed


end
